theory Spec2Isabelle
  imports Main
begin

section \<open>The node model of ast_basis.py\<close>

text \<open>
  A Python value that can be stored in an attribute of a node: \<open>None\<close>, an integer, a
  string, a tuple, a list, or a node. A node is an instance of a subclass of \<open>AST\<close>: its
  class name, the two tuples of declared names \<open>_fields\<close> and \<open>_attribs\<close>, the four
  location coordinates (typed \<open>int | None\<close> by the dataclass), and the remaining instance
  attributes as an association list from names to values (\<open>symref\<close> is one of them).
  Nodes are mutable objects in the source; the model is a tree of values, and an in-place
  update of a node is the replacement of that node in its parent.
\<close>

datatype val = VNone | VInt int | VStr string | VTuple "val list" | VList "val list" | VNode node
and node = Node (cls: string) (fields: "string list") (attribs: "string list")
  (lineno: "int option") (col_offset: "int option")
  (end_lineno: "int option") (end_col_offset: "int option")
  (vals: "(string \<times> val) list")

datatype py_error = AttributeError | IndexError | UnboundLocalError | RecursionError

abbreviation newline :: char where
  "newline \<equiv> CHR 0x0A"

subsection \<open>get_source_segment\<close>

text \<open>
  The loop \<open>for c in source\<close>: it stops as soon as \<open>len(lines) == end_lineno\<close>, closes
  the current line at a newline and otherwise appends the character to the current line.
  The result is the pair \<open>(lines, cur_line)\<close> at the end of the loop.
\<close>

fun collect_lines :: "int \<Rightarrow> string \<Rightarrow> string list \<Rightarrow> string \<Rightarrow> string list \<times> string" where
  "collect_lines e [] lines cur_line = (lines, cur_line)"
| "collect_lines e (c # cs) lines cur_line =
     (if int (length lines) = e then (lines, cur_line)
      else if c = newline then collect_lines e cs (lines @ [cur_line]) []
      else collect_lines e cs lines (cur_line @ [c]))"

text \<open>\<open>for _ in range(k): lines.pop(0)\<close>: popping from the empty list raises IndexError.\<close>

definition pop_front :: "int \<Rightarrow> 'a list \<Rightarrow> py_error + 'a list" where
  "pop_front k xs =
     (if k \<le> 0 then Inr xs
      else if int (length xs) < k then Inl IndexError
      else Inr (drop (nat k) xs))"

text \<open>Python's list index: a negative index counts from the end, out of range raises.\<close>

definition norm_index :: "'a list \<Rightarrow> int \<Rightarrow> py_error + nat" where
  "norm_index xs i =
     (if 0 \<le> i \<and> i < int (length xs) then Inr (nat i)
      else if i < 0 \<and> - int (length xs) \<le> i then Inr (nat (int (length xs) + i))
      else Inl IndexError)"

text \<open>Python's slices \<open>s[:k]\<close> and \<open>s[k:]\<close>: a negative bound counts from the end, and
  bounds are clamped to the string.\<close>

definition slice_bound :: "'a list \<Rightarrow> int \<Rightarrow> nat" where
  "slice_bound s k =
     (let n = int (length s) in if k < 0 then nat (max (n + k) 0) else nat (min k n))"

definition slice_to :: "'a list \<Rightarrow> int \<Rightarrow> 'a list" where
  "slice_to s k = take (slice_bound s k) s"

definition slice_from :: "'a list \<Rightarrow> int \<Rightarrow> 'a list" where
  "slice_from s k = drop (slice_bound s k) s"

fun join :: "string \<Rightarrow> string list \<Rightarrow> string" where
  "join sep [] = []"
| "join sep [x] = x"
| "join sep (x # y # ys) = x @ sep @ join sep (y # ys)"

text \<open>
  The part of \<open>get_source_segment\<close> after the presence check, on the four coordinates as
  integers. \<open>del c, cur_line\<close> raises UnboundLocalError when the loop never bound \<open>c\<close>,
  that is on the empty source.
\<close>

definition segment_of :: "string \<Rightarrow> int \<Rightarrow> int \<Rightarrow> int \<Rightarrow> int \<Rightarrow> py_error + string" where
  "segment_of source l c el ec =
     (let (lines0, cur_line) = collect_lines el source [] [];
          lines1 = (if cur_line \<noteq> [] then lines0 @ [cur_line] else lines0)
      in if source = [] then Inl UnboundLocalError
         else case pop_front (l - 1) lines1 of
           Inl e \<Rightarrow> Inl e
         | Inr lines2 \<Rightarrow>
            (case norm_index lines2 (el - l) of
               Inl e \<Rightarrow> Inl e
             | Inr i \<Rightarrow>
                (let lines3 = lines2[i := slice_to (lines2 ! i) (ec + 1)];
                     lines4 = lines3[0 := slice_from (lines3 ! 0) c]
                 in Inr (join [newline] lines4))))"

text \<open>
  \<open>get_source_segment(source, node, padded)\<close>: \<open>Inr None\<close> is the return value \<open>None\<close>,
  \<open>Inl e\<close> an exception. The presence check of the four coordinates comes first, the
  padded override of the start column second.
\<close>

definition get_source_segment :: "string \<Rightarrow> node \<Rightarrow> bool \<Rightarrow> py_error + string option" where
  "get_source_segment source node padded =
     (case (lineno node, col_offset node, end_lineno node, end_col_offset node) of
        (Some l, Some c, Some el, Some ec) \<Rightarrow>
          (case segment_of source l (if padded then 0 else c) el ec of
             Inl e \<Rightarrow> Inl e
           | Inr s \<Rightarrow> Inr (Some s))
      | _ \<Rightarrow> Inr None)"


subsection \<open>Attribute access and traversal\<close>

text \<open>
  \<open>getattr(node, name)\<close>; \<open>None\<close> of the model is the AttributeError that
  \<open>iter_fields\<close> and \<open>iter_attribs\<close> catch. The names of the dataclass fields are
  always readable: the two tuples of names, the four coordinates, and \<open>symref\<close>, whose
  class default is \<open>None\<close>. Every other name is looked up in the instance attributes.
  (Methods and the names that Python itself defines on every object are not modelled.)
\<close>

definition coord_value :: "int option \<Rightarrow> val" where
  "coord_value x = (case x of None \<Rightarrow> VNone | Some i \<Rightarrow> VInt i)"

definition getattr :: "node \<Rightarrow> string \<Rightarrow> val option" where
  "getattr node name =
     (if name = ''_fields'' then Some (VTuple (map VStr (fields node)))
      else if name = ''_attribs'' then Some (VTuple (map VStr (attribs node)))
      else if name = ''lineno'' then Some (coord_value (lineno node))
      else if name = ''col_offset'' then Some (coord_value (col_offset node))
      else if name = ''end_lineno'' then Some (coord_value (end_lineno node))
      else if name = ''end_col_offset'' then Some (coord_value (end_col_offset node))
      else case map_of (vals node) name of
             Some v \<Rightarrow> Some v
           | None \<Rightarrow> if name = ''symref'' then Some VNone else None)"

text \<open>The generator body shared by \<open>iter_fields\<close> and \<open>iter_attribs\<close>: one pair per
  declared name, a name whose lookup raises AttributeError is passed over.\<close>

fun iter_names :: "node \<Rightarrow> string list \<Rightarrow> (string \<times> val) list" where
  "iter_names node [] = []"
| "iter_names node (name # names) =
     (case getattr node name of
        Some v \<Rightarrow> (name, v) # iter_names node names
      | None \<Rightarrow> iter_names node names)"

definition iter_fields :: "node \<Rightarrow> (string \<times> val) list" where
  "iter_fields node = iter_names node (fields node)"

definition iter_attribs :: "node \<Rightarrow> (string \<times> val) list" where
  "iter_attribs node = iter_names node (attribs node)"

text \<open>The inner loop \<open>for item in attrib: if isinstance(item, AST): yield item\<close>.\<close>

fun yield_items :: "val list \<Rightarrow> node list" where
  "yield_items [] = []"
| "yield_items (VNode n # items) = n # yield_items items"
| "yield_items (_ # items) = yield_items items"

text \<open>The body of either loop of \<open>iter_child_nodes\<close> on one value.\<close>

fun yield_value :: "val \<Rightarrow> node list" where
  "yield_value (VNode n) = [n]"
| "yield_value (VList items) = yield_items items"
| "yield_value _ = []"

fun yield_children :: "(string \<times> val) list \<Rightarrow> node list" where
  "yield_children [] = []"
| "yield_children ((_, v) # rest) = yield_value v @ yield_children rest"

definition iter_child_nodes :: "node \<Rightarrow> node list" where
  "iter_child_nodes node = yield_children (iter_attribs node) @ yield_children (iter_fields node)"

text \<open>
  The enumeration of direct children in the words of the specification: the declared
  names, attributes before fields; a name without a value contributes nothing, a node
  contributes itself, a sequence its node elements in order, any other value nothing.
\<close>

definition is_node :: "val \<Rightarrow> bool" where
  "is_node v = (case v of VNode _ \<Rightarrow> True | _ \<Rightarrow> False)"

definition the_node :: "val \<Rightarrow> node" where
  "the_node v = (case v of VNode n \<Rightarrow> n | _ \<Rightarrow> Node [] [] [] None None None None [])"

definition children_of_name :: "node \<Rightarrow> string \<Rightarrow> node list" where
  "children_of_name node name =
     (case getattr node name of
        None \<Rightarrow> []
      | Some (VNode n) \<Rightarrow> [n]
      | Some (VList items) \<Rightarrow> map the_node (filter is_node items)
      | Some _ \<Rightarrow> [])"

definition direct_children :: "node \<Rightarrow> node list" where
  "direct_children node = concat (map (children_of_name node) (attribs node @ fields node))"

subsection \<open>walk\<close>

lemma yield_items_smaller: "n \<in> set (yield_items items) \<Longrightarrow> size n < size_list size items"
  by (induction items rule: yield_items.induct) auto

lemma yield_value_smaller: "n \<in> set (yield_value v) \<Longrightarrow> size n < size v"
  by (cases v) (auto dest: yield_items_smaller)

lemma map_of_smaller:
  "map_of kvs name = Some v \<Longrightarrow> size v \<le> size_list (size_prod (\<lambda>x. 0) size) kvs"
  by (induction kvs) (auto split: if_splits)

lemma getattr_smaller:
  "getattr node name = Some v \<Longrightarrow> n \<in> set (yield_value v) \<Longrightarrow> size n < size node"
proof -
  assume g: "getattr node name = Some v" and n: "n \<in> set (yield_value v)"
  from n have "map_of (vals node) name = Some v"
    using g by (auto simp: getattr_def coord_value_def split: if_splits option.splits)
  then have "size v \<le> size_list (size_prod (\<lambda>x. 0) size) (vals node)"
    by (rule map_of_smaller)
  moreover have "size n < size v"
    using n by (rule yield_value_smaller)
  ultimately show ?thesis
    by (cases node) simp
qed

lemma yield_children_iter_names_smaller:
  "n \<in> set (yield_children (iter_names node names)) \<Longrightarrow> size n < size node"
  by (induction names) (auto split: option.splits dest: getattr_smaller)

lemma iter_child_nodes_smaller [termination_simp]:
  "child \<in> set (iter_child_nodes node) \<Longrightarrow> size child < size node"
  unfolding iter_child_nodes_def iter_attribs_def iter_fields_def
  by (auto dest: yield_children_iter_names_smaller)

text \<open>The number of nodes that \<open>walk\<close> yields from a node: itself and, for every child
  that \<open>iter_child_nodes\<close> yields, the nodes of that child.\<close>

fun count_nodes :: "node \<Rightarrow> nat" where
  "count_nodes node = Suc (sum_list (map count_nodes (iter_child_nodes node)))"

text \<open>
  The loop of \<open>walk\<close> on the deque \<open>todo\<close>: pop a node on the left, extend the deque
  on the right with its children, yield the node. The result is the sequence of yields.
\<close>

function walk_todo :: "node list \<Rightarrow> node list" where
  "walk_todo [] = []"
| "walk_todo (node # todo) = node # walk_todo (todo @ iter_child_nodes node)"
  by pat_completeness auto
termination
  by (relation "measure (\<lambda>todo. sum_list (map count_nodes todo))") auto

definition walk :: "node \<Rightarrow> node list" where
  "walk node = walk_todo [node]"

text \<open>Generation \<open>k\<close> below a list of nodes: the nodes themselves for \<open>k = 0\<close>, the
  children (in \<open>iter_child_nodes\<close> order) of generation \<open>k\<close> for \<open>k + 1\<close>.\<close>

primrec generation :: "node list \<Rightarrow> nat \<Rightarrow> node list" where
  "generation nodes 0 = nodes"
| "generation nodes (Suc k) = generation (concat (map iter_child_nodes nodes)) k"

declare count_nodes.simps [simp del]

text \<open>Example trees: a node without children, a node with one child in the field
  \<open>value\<close>, and a module whose field \<open>body\<close> is a list of two such nodes.\<close>

definition leaf :: "string \<Rightarrow> node" where
  "leaf k = Node k [] [] None None None None []"

definition unary :: "string \<Rightarrow> node \<Rightarrow> node" where
  "unary k c = Node k [''value''] [] None None None None [(''value'', VNode c)]"

definition example_module :: node where
  "example_module = Node ''Module'' [''body''] [] None None None None
     [(''body'', VList [VNode (unary ''A'' (leaf ''C'')), VNode (unary ''B'' (leaf ''D''))])]"

subsection \<open>NodeVisitor and NodeTransformer\<close>

text \<open>
  \<open>setattr(node, name, value)\<close> and \<open>delattr(node, name)\<close> on the instance attributes.
  The transformer calls them only for a name under which \<open>getattr\<close> found a node, which
  is never one of the dataclass fields of the model.
\<close>

fun with_vals :: "node \<Rightarrow> (string \<times> val) list \<Rightarrow> node" where
  "with_vals (Node k fs ats l c el ec _) vs = Node k fs ats l c el ec vs"

fun assign :: "string \<Rightarrow> val \<Rightarrow> (string \<times> val) list \<Rightarrow> (string \<times> val) list" where
  "assign name v [] = [(name, v)]"
| "assign name v ((k, w) # kvs) = (if k = name then (k, v) # kvs else (k, w) # assign name v kvs)"

definition setattr :: "node \<Rightarrow> string \<Rightarrow> val \<Rightarrow> node" where
  "setattr node name v = with_vals node (assign name v (vals node))"

definition delattr :: "node \<Rightarrow> string \<Rightarrow> node" where
  "delattr node name = with_vals node (filter (\<lambda>kv. fst kv \<noteq> name) (vals node))"

text \<open>\<open>value.__class__.__name__\<close>.\<close>

fun class_name :: "val \<Rightarrow> string" where
  "class_name VNone = ''NoneType''"
| "class_name (VInt _) = ''int''"
| "class_name (VStr _) = ''str''"
| "class_name (VTuple _) = ''tuple''"
| "class_name (VList _) = ''list''"
| "class_name (VNode n) = cls n"

text \<open>
  A visitor method takes the visited value and returns a value or raises. The methods
  \<open>visit_X\<close> that a subclass defines are a partial map from method names to such
  functions. \<open>NodeVisitor.visit\<close> looks up \<open>visit_\<close> followed by the class name of its
  argument and falls back to the \<open>generic_visit\<close> of the instance.
\<close>

type_synonym visitor = "val \<Rightarrow> py_error + val"
type_synonym handlers = "string \<Rightarrow> visitor option"

definition visit :: "handlers \<Rightarrow> visitor \<Rightarrow> val \<Rightarrow> py_error + val" where
  "visit methods generic_visit v =
     (case methods (''visit_'' @ class_name v) of
        Some visitor \<Rightarrow> visitor v
      | None \<Rightarrow> generic_visit v)"

text \<open>
  The loop \<open>for value in old\<close> of \<open>NodeTransformer.generic_visit\<close>, with the list
  \<open>new\<close> built so far. For an element that is a node the source calls
  \<open>self.visit(old)\<close>, on the list \<open>old\<close>, not on the element; \<open>self_visit\<close> is the
  \<open>visit\<close> of the instance.
\<close>

fun rewrite_list :: "visitor \<Rightarrow> val list \<Rightarrow> val list \<Rightarrow> val list \<Rightarrow> py_error + val list" where
  "rewrite_list self_visit old [] new = Inr new"
| "rewrite_list self_visit old (v # rest) new =
     (if is_node v then
        (case self_visit (VList old) of
           Inl e \<Rightarrow> Inl e
         | Inr VNone \<Rightarrow> rewrite_list self_visit old rest new
         | Inr (VList vs) \<Rightarrow> rewrite_list self_visit old rest (new @ vs)
         | Inr w \<Rightarrow> rewrite_list self_visit old rest (new @ [w]))
      else rewrite_list self_visit old rest (new @ [v]))"

text \<open>
  One of the two loops of \<open>NodeTransformer.generic_visit\<close>, over the declared names that
  are left: \<open>iter_attribs\<close> and \<open>iter_fields\<close> are generators, so each name is
  read from the node as the earlier iterations left it. A list value is rewritten in
  place (\<open>old[:] = new\<close>); a node value is visited and the attribute deleted or set.
\<close>

fun rewrite_names :: "visitor \<Rightarrow> string list \<Rightarrow> node \<Rightarrow> py_error + node" where
  "rewrite_names self_visit [] node = Inr node"
| "rewrite_names self_visit (name # names) node =
     (case getattr node name of
        Some (VList old) \<Rightarrow>
          (case rewrite_list self_visit old old [] of
             Inl e \<Rightarrow> Inl e
           | Inr new \<Rightarrow> rewrite_names self_visit names (setattr node name (VList new)))
      | Some (VNode old) \<Rightarrow>
          (case self_visit (VNode old) of
             Inl e \<Rightarrow> Inl e
           | Inr VNone \<Rightarrow> rewrite_names self_visit names (delattr node name)
           | Inr new \<Rightarrow> rewrite_names self_visit names (setattr node name new))
      | _ \<Rightarrow> rewrite_names self_visit names node)"

text \<open>
  \<open>NodeTransformer.generic_visit\<close>. On a value that is not a node, reading
  \<open>node._attribs\<close> in \<open>iter_attribs\<close> raises AttributeError.
\<close>

definition NodeTransformer_generic_visit :: "visitor \<Rightarrow> val \<Rightarrow> py_error + val" where
  "NodeTransformer_generic_visit self_visit v =
     (case v of
        VNode node \<Rightarrow>
          (case rewrite_names self_visit (attribs node) node of
             Inl e \<Rightarrow> Inl e
           | Inr node1 \<Rightarrow>
              (case rewrite_names self_visit (fields node1) node1 of
                 Inl e \<Rightarrow> Inl e
               | Inr node2 \<Rightarrow> Inr (VNode node2)))
      | _ \<Rightarrow> Inl AttributeError)"

text \<open>
  \<open>visit\<close> of a \<open>NodeTransformer\<close> instance with the given methods. \<open>visit\<close> and
  \<open>generic_visit\<close> call each other through \<open>self\<close>; the first argument bounds the
  depth of these calls, as the interpreter's recursion limit does, and exceeding it is
  RecursionError.
\<close>

primrec transformer_visit :: "nat \<Rightarrow> handlers \<Rightarrow> val \<Rightarrow> py_error + val" where
  "transformer_visit 0 methods v = Inl RecursionError"
| "transformer_visit (Suc depth) methods v =
     visit methods (NodeTransformer_generic_visit (transformer_visit depth methods)) v"

text \<open>The methods of a transformer subclass that defines only \<open>visit_Expr\<close>, which
  returns a list of two replacement nodes.\<close>

definition two_for_one :: handlers where
  "two_for_one = (\<lambda>name. None)(''visit_Expr'' :=
      Some (\<lambda>v. Inr (VList [VNode (leaf ''Pass''), VNode (leaf ''Pass'')])))"

subsection \<open>Positions of nodes and in-place updates\<close>

text \<open>
  The functions below mutate the nodes that a traversal yields. A traversal yields
  references to objects; in a tree an object is identified by its position, so the model
  of a reference to a child is the place where the parent holds it: the attribute
  \<open>name\<close> itself, or index \<open>i\<close> of the list in the attribute \<open>name\<close>. A position in a
  tree is the sequence of such steps from the root.
\<close>

datatype child_ref = Direct string | Item string nat

text \<open>\<open>iter_child_refs\<close> runs the two loops of \<open>iter_child_nodes\<close> and yields, for every
  child that \<open>iter_child_nodes\<close> yields, the place of that child, in the same order.\<close>

fun refs_of_value :: "string \<Rightarrow> val \<Rightarrow> child_ref list" where
  "refs_of_value name (VNode _) = [Direct name]"
| "refs_of_value name (VList items) =
     map (Item name) (filter (\<lambda>i. is_node (items ! i)) [0..<length items])"
| "refs_of_value name _ = []"

fun yield_refs :: "(string \<times> val) list \<Rightarrow> child_ref list" where
  "yield_refs [] = []"
| "yield_refs ((name, v) # rest) = refs_of_value name v @ yield_refs rest"

definition iter_child_refs :: "node \<Rightarrow> child_ref list" where
  "iter_child_refs node = yield_refs (iter_attribs node) @ yield_refs (iter_fields node)"

text \<open>The child at a place of a node, if there is one, and the node with the child at a
  place replaced.\<close>

fun deref :: "node \<Rightarrow> child_ref \<Rightarrow> node option" where
  "deref node (Direct name) =
     (case getattr node name of Some (VNode child) \<Rightarrow> Some child | _ \<Rightarrow> None)"
| "deref node (Item name i) =
     (case getattr node name of
        Some (VList items) \<Rightarrow>
          (if i < length items
           then (case items ! i of VNode child \<Rightarrow> Some child | _ \<Rightarrow> None)
           else None)
      | _ \<Rightarrow> None)"

fun assign_ref :: "node \<Rightarrow> child_ref \<Rightarrow> node \<Rightarrow> node" where
  "assign_ref node (Direct name) child = setattr node name (VNode child)"
| "assign_ref node (Item name i) child =
     (case getattr node name of
        Some (VList items) \<Rightarrow> setattr node name (VList (items[i := VNode child]))
      | _ \<Rightarrow> node)"

text \<open>The node at a position of a tree, and the tree in which the node at a position has
  been replaced by its image under \<open>f\<close>: the effect on the tree of a statement that
  mutates that node.\<close>

type_synonym node_path = "child_ref list"

fun node_at :: "node \<Rightarrow> node_path \<Rightarrow> node option" where
  "node_at node [] = Some node"
| "node_at node (r # path) =
     (case deref node r of None \<Rightarrow> None | Some child \<Rightarrow> node_at child path)"

fun update_at :: "node_path \<Rightarrow> (node \<Rightarrow> node) \<Rightarrow> node \<Rightarrow> node" where
  "update_at [] f node = f node"
| "update_at (r # path) f node =
     (case deref node r of
        None \<Rightarrow> node
      | Some child \<Rightarrow> assign_ref node r (update_at path f child))"

subsection \<open>increment_lineno\<close>

text \<open>
  \<open>walk\<close> with every yielded node paired with its position: the deque holds pairs, and
  the children of a node at position \<open>path\<close> are at the positions \<open>path @ [r]\<close> for the
  places \<open>r\<close> that \<open>iter_child_refs\<close> yields. The second components are the nodes that
  \<open>walk\<close> yields, in the same order (lemma \<open>snd_walk_located\<close>).
\<close>

definition located_children :: "node_path \<Rightarrow> node \<Rightarrow> (node_path \<times> node) list" where
  "located_children path node =
     zip (map (\<lambda>r. path @ [r]) (iter_child_refs node)) (iter_child_nodes node)"

lemma sum_list_take_le: "sum_list (map f (take k xs)) \<le> sum_list (map f xs)" for f :: "'a \<Rightarrow> nat"
proof -
  have "sum_list (map f xs) = sum_list (map f (take k xs)) + sum_list (map f (drop k xs))"
    by (metis append_take_drop_id map_append sum_list.append)
  then show ?thesis by simp
qed

lemma count_located_children:
  "sum_list (map (count_nodes \<circ> snd) (located_children path node))
   \<le> sum_list (map count_nodes (iter_child_nodes node))"
proof -
  have "map (count_nodes \<circ> snd) (located_children path node)
        = map count_nodes (map snd (located_children path node))"
    by simp
  also have "\<dots> = map count_nodes
      (take (min (length (iter_child_refs node)) (length (iter_child_nodes node)))
         (iter_child_nodes node))"
    by (simp only: located_children_def map_snd_zip_take length_map)
  finally show ?thesis by (simp only: sum_list_take_le)
qed

function walk_located :: "(node_path \<times> node) list \<Rightarrow> (node_path \<times> node) list" where
  "walk_located [] = []"
| "walk_located ((path, node) # todo) =
     (path, node) # walk_located (todo @ located_children path node)"
  by pat_completeness auto
termination
proof (relation "measure (\<lambda>todo. sum_list (map (count_nodes \<circ> snd) todo))")
  fix path node and todo :: "(node_path \<times> node) list"
  show "(todo @ located_children path node, (path, node) # todo)
    \<in> measure (\<lambda>todo. sum_list (map (count_nodes \<circ> snd) todo))"
    using count_located_children [of path node] by (simp add: count_nodes.simps [of node])
qed simp

text \<open>
  The body of the loop of \<open>increment_lineno\<close> on one node, and the loop
  \<open>for child in walk(node)\<close>: the body is applied, in the order of \<open>walk\<close>, to the node at
  each yielded position of the tree as the earlier iterations left it. The body changes
  no attribute that \<open>iter_child_nodes\<close> reads as a child, so the positions that the
  generator yields during the loop are those of the tree before the loop.
\<close>

fun bump_lines :: "int \<Rightarrow> node \<Rightarrow> node" where
  "bump_lines n (Node k fs ats l c el ec vs) =
     Node k fs ats
       (case l of None \<Rightarrow> None | Some x \<Rightarrow> Some (x + n)) c
       (case el of None \<Rightarrow> None | Some x \<Rightarrow> Some (x + n)) ec vs"

definition increment_lineno :: "node \<Rightarrow> int \<Rightarrow> node" where
  "increment_lineno node n =
     fold (\<lambda>(path, child) tree. update_at path (bump_lines n) tree) (walk_located [([], node)]) node"

text \<open>The names that \<open>getattr\<close> answers from the dataclass fields.\<close>

definition slot_names :: "string list" where
  "slot_names = [''_fields'', ''_attribs'', ''lineno'', ''col_offset'', ''end_lineno'', ''end_col_offset'']"

text \<open>The four coordinates of a node.\<close>

definition coords :: "node \<Rightarrow> int option \<times> int option \<times> int option \<times> int option" where
  "coords node = (lineno node, col_offset node, end_lineno node, end_col_offset node)"


text \<open>An example tree with locations: a module of two lines whose body holds one expression.\<close>

definition located_example :: node where
  "located_example = Node ''Module'' [''body''] [] (Some 1) (Some 0) (Some 2) (Some 5)
     [(''body'', VList [VNode (Node ''Expr'' [] [] (Some 2) (Some 4) None None [])])]"


subsection \<open>fix_missing_locations\<close>

lemma yield_items_filter: "yield_items items = map the_node (filter is_node items)"
  by (induction items rule: yield_items.induct) (simp_all add: is_node_def the_node_def)

lemma yield_children_iter_names:
  "yield_children (iter_names node names) = concat (map (children_of_name node) names)"
proof (induction names)
  case Nil
  show ?case by simp
next
  case (Cons name names)
  show ?case
  proof (cases "getattr node name")
    case None
    with Cons show ?thesis by (simp add: children_of_name_def)
  next
    case (Some v)
    with Cons show ?thesis
      by (cases v) (simp_all add: children_of_name_def yield_items_filter)
  qed
qed

lemma iter_child_nodes_children_of_name:
  "iter_child_nodes node = concat (map (children_of_name node) (attribs node @ fields node))"
  by (simp add: iter_child_nodes_def iter_attribs_def iter_fields_def yield_children_iter_names)

text \<open>
  The loop \<open>for child in iter_child_nodes(node): body(child)\<close> for a body that mutates
  the child it is given: \<open>update_children f node\<close> is the node in which every child that
  the loop reaches has been replaced by its image under \<open>f\<close>. It follows the two loops of
  \<open>iter_child_nodes\<close> over the declared names: a node value is replaced by its image, in
  a list value every element that is a node is. The children are those of the node
  before the loop; for a name that is declared twice the source runs the body a second
  time on the child that the first run produced (see lemma \<open>fix_node_fixed\<close>).
\<close>

fun update_items :: "(node \<Rightarrow> node) \<Rightarrow> val list \<Rightarrow> val list" where
  "update_items f [] = []"
| "update_items f (VNode child # items) = VNode (f child) # update_items f items"
| "update_items f (v # items) = v # update_items f items"

definition update_name :: "(node \<Rightarrow> node) \<Rightarrow> node \<Rightarrow> string \<Rightarrow> node \<Rightarrow> node" where
  "update_name f node name acc =
     (case getattr node name of
        Some (VNode child) \<Rightarrow> setattr acc name (VNode (f child))
      | Some (VList items) \<Rightarrow> setattr acc name (VList (update_items f items))
      | _ \<Rightarrow> acc)"

definition update_children :: "(node \<Rightarrow> node) \<Rightarrow> node \<Rightarrow> node" where
  "update_children f node = fold (update_name f node) (attribs node @ fields node) node"

lemma update_items_cong:
  "(\<And>c. c \<in> set (yield_items items) \<Longrightarrow> f c = g c) \<Longrightarrow> update_items f items = update_items g items"
  by (induction items rule: yield_items.induct) auto

lemma children_of_name_subset:
  "name \<in> set (attribs node @ fields node) \<Longrightarrow>
   set (children_of_name node name) \<subseteq> set (iter_child_nodes node)"
  by (auto simp: iter_child_nodes_children_of_name)

lemma update_name_cong:
  assumes "\<And>c. c \<in> set (children_of_name node name) \<Longrightarrow> f c = g c"
  shows "update_name f node name acc = update_name g node name acc"
proof (cases "getattr node name")
  case None
  then show ?thesis by (simp add: update_name_def)
next
  case (Some v)
  show ?thesis
  proof (cases v)
    case (VNode c)
    with Some assms show ?thesis by (simp add: update_name_def children_of_name_def)
  next
    case (VList items)
    with Some assms have "update_items f items = update_items g items"
      by (intro update_items_cong) (simp add: children_of_name_def yield_items_filter)
    with Some VList show ?thesis by (simp add: update_name_def)
  qed (use Some in \<open>simp_all add: update_name_def\<close>)
qed

lemma update_children_cong [fundef_cong]:
  assumes "node = node'" "\<And>c. c \<in> set (iter_child_nodes node') \<Longrightarrow> f c = g c"
  shows "update_children f node = update_children g node'"
  unfolding update_children_def assms(1)
proof (rule fold_cong [OF refl refl])
  fix name assume "name \<in> set (attribs node' @ fields node')"
  then have "set (children_of_name node' name) \<subseteq> set (iter_child_nodes node')"
    by (rule children_of_name_subset)
  then have "\<And>acc. update_name f node' name acc = update_name g node' name acc"
    using assms(2) by (intro update_name_cong) auto
  then show "update_name f node' name = update_name g node' name" by (rule ext)
qed

text \<open>
  The nested function \<open>_fix\<close> of \<open>fix_missing_locations\<close> (\<open>fix_node\<close> here). Each of the
  four statements \<open>if node.x == None: node.x = x else: x = node.x\<close> leaves both the
  coordinate and the variable at \<open>inherit (x node) x\<close>; then the children are fixed with
  the four variables.
\<close>

definition inherit :: "int option \<Rightarrow> int \<Rightarrow> int" where
  "inherit own inherited = (case own of None \<Rightarrow> inherited | Some x \<Rightarrow> x)"

fun with_coords :: "node \<Rightarrow> int option \<Rightarrow> int option \<Rightarrow> int option \<Rightarrow> int option \<Rightarrow> node" where
  "with_coords (Node k fs ats _ _ _ _ vs) l c el ec = Node k fs ats l c el ec vs"

lemma sels_with_coords [simp]:
  "lineno (with_coords node l c el ec) = l" "col_offset (with_coords node l c el ec) = c"
  "end_lineno (with_coords node l c el ec) = el" "end_col_offset (with_coords node l c el ec) = ec"
  "cls (with_coords node l c el ec) = cls node" "fields (with_coords node l c el ec) = fields node"
  "attribs (with_coords node l c el ec) = attribs node" "vals (with_coords node l c el ec) = vals node"
  by (cases node; simp)+

lemma children_of_name_with_coords [simp]:
  "children_of_name (with_coords node l c el ec) = children_of_name node"
  by (rule ext) (auto simp: children_of_name_def getattr_def coord_value_def split: option.splits)

lemma iter_child_nodes_with_coords [simp]:
  "iter_child_nodes (with_coords node l c el ec) = iter_child_nodes node"
  by (simp add: iter_child_nodes_children_of_name)

fun fix_node :: "node \<Rightarrow> int \<Rightarrow> int \<Rightarrow> int \<Rightarrow> int \<Rightarrow> node" where
  "fix_node node l0 c0 el0 ec0 =
     (let l = inherit (lineno node) l0;
          c = inherit (col_offset node) c0;
          el = inherit (end_lineno node) el0;
          ec = inherit (end_col_offset node) ec0
      in update_children (\<lambda>child. fix_node child l c el ec)
           (with_coords node (Some l) (Some c) (Some el) (Some ec)))"

definition fix_missing_locations :: "node \<Rightarrow> node" where
  "fix_missing_locations node = fix_node node 1 0 1 0"

text \<open>The value that \<open>update_children\<close> stores under a name, if it stores one.\<close>

definition updated :: "(node \<Rightarrow> node) \<Rightarrow> node \<Rightarrow> string \<Rightarrow> val option" where
  "updated f node name =
     (case getattr node name of
        Some (VNode child) \<Rightarrow> Some (VNode (f child))
      | Some (VList items) \<Rightarrow> Some (VList (update_items f items))
      | _ \<Rightarrow> None)"

section \<open>The schema parser of ast_classgen.py\<close>

text \<open>
  The dataclasses of the grammar description. \<open>AbstractType\<close> has the two subclasses
  \<open>ProductType\<close> and \<open>SumType\<close>.
\<close>

datatype Field = Field (field_type_name: string) (field_name: string) (can_none: bool) (can_many: bool)
datatype Constructor = Constructor (ctor_name: string) (ctor_fields: "Field list")
datatype AbstractType = ProductType "Field list" | SumType "Constructor list" "Field list"
datatype TypeDef = TypeDef (type_name: string) (type_def: AbstractType)
datatype Module = Module (mod_name: string) (typedefs: "TypeDef list")

text \<open>
  Every failure of the parser is \<open>raise Exception(message)\<close>; an exception raised
  \<open>from e\<close> carries the chain of its causes. The model of an exception is the list of
  the messages of the chain, the outermost first.
\<close>

type_synonym parse_error = "string list"

text \<open>
  The character classes of the patterns on ASCII text: \<open>\s\<close> (also the characters
  that \<open>str.strip\<close> removes), \<open>str.isupper\<close> on one character, and \<open>\w\<close>.
\<close>

definition is_space :: "char \<Rightarrow> bool" where
  "is_space c = (c \<in> set [CHR 0x09, CHR 0x0A, CHR 0x0B, CHR 0x0C, CHR 0x0D,
                           CHR 0x1C, CHR 0x1D, CHR 0x1E, CHR 0x1F, CHR 0x20])"

definition is_upper :: "char \<Rightarrow> bool" where
  "is_upper c = (c \<in> set ''ABCDEFGHIJKLMNOPQRSTUVWXYZ'')"

definition is_word :: "char \<Rightarrow> bool" where
  "is_word c = (is_upper c \<or> c \<in> set ''abcdefghijklmnopqrstuvwxyz0123456789_'')"

text \<open>
  The parser matches a pattern anchored at the start of \<open>mod_raw\<close> and then drops the
  matched prefix. A match is modelled by the captured groups and the text left after it;
  \<open>None\<close> is \<open>re.match\<close> returning \<open>None\<close>. The classes \<open>\s\<close>, \<open>\w\<close> and the
  punctuation of the patterns are pairwise disjoint, so the greedy match of every
  repetition is the only one and no pattern below backtracks. \<open>skip_spaces\<close> is
  \<open>\s*\<close>, \<open>match_word\<close> is \<open>(\w+)\<close>, \<open>match_lit\<close> a literal word, \<open>match_symbol\<close> is
  \<open>([\?\*\+])?\<close>, \<open>match_spaces1\<close> is \<open>\s+\<close>.
\<close>

definition skip_spaces :: "string \<Rightarrow> string" where
  "skip_spaces s = dropWhile is_space s"

definition match_word :: "string \<Rightarrow> (string \<times> string) option" where
  "match_word s =
     (let w = takeWhile is_word s
      in if w = [] then None else Some (w, dropWhile is_word s))"

definition match_lit :: "string \<Rightarrow> string \<Rightarrow> string option" where
  "match_lit lit s = (if take (length lit) s = lit then Some (drop (length lit) s) else None)"

definition match_symbol :: "string \<Rightarrow> char option \<times> string" where
  "match_symbol s =
     (case s of
        [] \<Rightarrow> (None, s)
      | c # cs \<Rightarrow> if c \<in> set ''?*+'' then (Some c, cs) else (None, s))"

definition match_spaces1 :: "string \<Rightarrow> string option" where
  "match_spaces1 s =
     (case s of
        [] \<Rightarrow> None
      | c # cs \<Rightarrow> if is_space c then Some (skip_spaces cs) else None)"

text \<open>The pattern \<open>^\s*(\w+)([\?\*\+])?\s+(\w+)\s*\<close> of \<open>getField\<close>: the groups
  are the type name, the marker if there is one, and the field name.\<close>

definition match_field :: "string \<Rightarrow> (string \<times> char option \<times> string \<times> string) option" where
  "match_field s =
     (case match_word (skip_spaces s) of
        None \<Rightarrow> None
      | Some (tname, s1) \<Rightarrow>
         (case match_symbol s1 of
            (symbol, s2) \<Rightarrow>
              (case match_spaces1 s2 of
                 None \<Rightarrow> None
               | Some s3 \<Rightarrow>
                  (case match_word s3 of
                     None \<Rightarrow> None
                   | Some (fname, s4) \<Rightarrow> Some (tname, symbol, fname, skip_spaces s4)))))"

text \<open>\<open>getField\<close>: the marker is \<open>None\<close> or a string of one character, so
  \<open>symbol and symbol in "?*"\<close> holds exactly when the character is one of the two.\<close>

definition getField :: "string \<Rightarrow> parse_error + Field \<times> string" where
  "getField mod_raw =
     (case match_field mod_raw of
        None \<Rightarrow> Inl [''expected field'']
      | Some (tname, symbol, fname, rest) \<Rightarrow>
          (let can_none = (case symbol of None \<Rightarrow> False | Some c \<Rightarrow> c \<in> set ''?*'');
               can_many = (case symbol of None \<Rightarrow> False | Some c \<Rightarrow> c \<in> set ''*+'')
           in Inr (Field tname fname can_none can_many, rest)))"

text \<open>The patterns \<open>^\s*p\s*\<close> for one punctuation character \<open>p\<close>.\<close>

definition match_punct :: "char \<Rightarrow> string \<Rightarrow> string option" where
  "match_punct p s =
     (case skip_spaces s of
        [] \<Rightarrow> None
      | c # cs \<Rightarrow> if c = p then Some (skip_spaces cs) else None)"

lemma skip_spaces_le: "length (skip_spaces s) \<le> length s"
  by (simp add: skip_spaces_def length_dropWhile_le)

lemma match_word_less: "match_word s = Some (w, r) \<Longrightarrow> length r < length s"
proof -
  assume a: "match_word s = Some (w, r)"
  then have w: "takeWhile is_word s \<noteq> []" and r: "r = dropWhile is_word s"
    by (auto simp: match_word_def Let_def split: if_splits)
  have "length (takeWhile is_word s) + length (dropWhile is_word s) = length s"
    by (metis length_append takeWhile_dropWhile_id)
  with w r show ?thesis by (cases "takeWhile is_word s") auto
qed

lemma match_punct_less: "match_punct p s = Some r \<Longrightarrow> length r < length s"
proof -
  assume "match_punct p s = Some r"
  then obtain cs where s: "skip_spaces s = p # cs" and r: "r = skip_spaces cs"
    by (auto simp: match_punct_def split: list.splits if_splits)
  have "length r \<le> length cs" using r by (simp add: skip_spaces_le)
  moreover have "length (p # cs) \<le> length s" using skip_spaces_le [of s] s by simp
  ultimately show ?thesis by simp
qed

lemma match_symbol_le: "match_symbol s = (m, r) \<Longrightarrow> length r \<le> length s"
  by (auto simp: match_symbol_def split: list.splits if_splits)

lemma match_spaces1_less: "match_spaces1 s = Some r \<Longrightarrow> length r < length s"
  by (auto simp: match_spaces1_def le_imp_less_Suc skip_spaces_le split: list.splits if_splits)

lemma match_field_less:
  "match_field s = Some (t, m, f, r) \<Longrightarrow> length r < length s"
proof -
  assume a: "match_field s = Some (t, m, f, r)"
  from a obtain s1 where m1: "match_word (skip_spaces s) = Some (t, s1)"
    by (auto simp: match_field_def split: option.splits prod.splits)
  obtain m' s2 where m2: "match_symbol s1 = (m', s2)"
    by (cases "match_symbol s1")
  from a m1 m2 obtain s3 where m3: "match_spaces1 s2 = Some s3"
    by (auto simp: match_field_def split: option.splits prod.splits)
  from a m1 m2 m3 obtain s4 where m4: "match_word s3 = Some (f, s4)" and r: "r = skip_spaces s4"
    by (auto simp: match_field_def split: option.splits prod.splits)
  have "length s1 < length s"
    using match_word_less [OF m1] skip_spaces_le [of s] by simp
  moreover have "length s2 \<le> length s1" using m2 by (rule match_symbol_le)
  moreover have "length s3 < length s2" using m3 by (rule match_spaces1_less)
  moreover have "length s4 < length s3" using m4 by (rule match_word_less)
  moreover have "length r \<le> length s4" using r by (simp add: skip_spaces_le)
  ultimately show ?thesis by simp
qed

lemma getField_less: "getField s = Inr (f, r) \<Longrightarrow> length r < length s"
  by (auto simp: getField_def Let_def split: option.splits dest: match_field_less)

text \<open>\<open>getFields\<close>: the loop \<open>while True\<close> with the list \<open>fields\<close> built so far, and
  the function around it.\<close>

function getFields_loop :: "string \<Rightarrow> Field list \<Rightarrow> parse_error + Field list \<times> string" where
  "getFields_loop mod_raw flds =
     (case getField mod_raw of
        Inl e \<Rightarrow> Inl e
      | Inr (fld, rest) \<Rightarrow>
         (case match_punct (CHR '','') rest of
            None \<Rightarrow> Inr (flds @ [fld], rest)
          | Some rest' \<Rightarrow> getFields_loop rest' (flds @ [fld])))"
  by pat_completeness auto
termination
  by (relation "measure (\<lambda>(s, fs). length s)")
     (auto dest!: getField_less match_punct_less)

declare getFields_loop.simps [simp del]

definition getFields :: "string \<Rightarrow> parse_error + Field list \<times> string" where
  "getFields mod_raw =
     (case match_punct (CHR ''('') mod_raw of
        None \<Rightarrow> Inl [''expected left parenthesis to begin field list.'']
      | Some s1 \<Rightarrow>
         (case getFields_loop s1 [] of
            Inl e \<Rightarrow> Inl e
          | Inr (flds, s2) \<Rightarrow>
             (case match_punct (CHR '')'') s2 of
                None \<Rightarrow> Inl [''expected right parenthesis to close field list.'']
              | Some s3 \<Rightarrow> Inr (flds, s3))))"

text \<open>\<open>getConstructor\<close>. The pattern \<open>^\s*\(\s*\<close> is only tested here; \<open>getFields\<close>
  matches it again.\<close>

definition getConstructor :: "string \<Rightarrow> parse_error + Constructor \<times> string" where
  "getConstructor mod_raw =
     (case match_word (skip_spaces mod_raw) of
        None \<Rightarrow> Inl [''expected name in constructor'']
      | Some (cname, s1) \<Rightarrow>
         (let rest = skip_spaces s1
          in if \<not> is_upper (hd cname)
             then Inl [''constructor name must start with an uppercase later'']
             else if match_punct (CHR ''('') rest = None
             then Inr (Constructor cname [], rest)
             else (case getFields rest of
                     Inl e \<Rightarrow> Inl ((''in ctor of '' @ [CHR 0x27] @ cname @ [CHR 0x27]) # e)
                   | Inr (flds, rest') \<Rightarrow> Inr (Constructor cname flds, rest'))))"

lemma getFields_loop_less: "getFields_loop s fs = Inr (fs', r) \<Longrightarrow> length r < length s"
proof (induction s fs rule: getFields_loop.induct)
  case (1 mod_raw flds)
  from "1.prems" obtain fld rest where g: "getField mod_raw = Inr (fld, rest)"
    by (subst (asm) getFields_loop.simps) (auto split: sum.splits)
  have l: "length rest < length mod_raw" using g by (rule getField_less)
  show ?case
  proof (cases "match_punct (CHR '','') rest")
    case None
    with "1.prems" g l show ?thesis
      by (subst (asm) getFields_loop.simps) simp
  next
    case (Some rest')
    with "1.prems" g have "getFields_loop rest' (flds @ [fld]) = Inr (fs', r)"
      by (subst (asm) getFields_loop.simps) simp
    with "1.IH" g Some have "length r < length rest'" by simp
    with match_punct_less [OF Some] l show ?thesis by simp
  qed
qed

lemma getFields_less: "getFields s = Inr (fs, r) \<Longrightarrow> length r < length s"
  by (auto simp: getFields_def split: option.splits sum.splits
        dest!: match_punct_less getFields_loop_less)

lemma getConstructor_less: "getConstructor s = Inr (c, r) \<Longrightarrow> length r < length s"
proof -
  assume a: "getConstructor s = Inr (c, r)"
  then obtain w s1 where m: "match_word (skip_spaces s) = Some (w, s1)"
    by (auto simp: getConstructor_def split: option.splits)
  have l: "length (skip_spaces s1) < length s"
    using match_word_less [OF m] skip_spaces_le [of s] skip_spaces_le [of s1] by simp
  from a m have "r = skip_spaces s1 \<or> (\<exists>fs. getFields (skip_spaces s1) = Inr (fs, r))"
    by (auto simp: getConstructor_def Let_def split: if_splits sum.splits)
  then show ?thesis using l by (auto dest: getFields_less)
qed

text \<open>\<open>getSumType\<close>: the loop over the constructors, the pattern
  \<open>^\s*attributes\s*\<close>, and the function.\<close>

function getSumType_loop :: "string \<Rightarrow> Constructor list \<Rightarrow> parse_error + Constructor list \<times> string" where
  "getSumType_loop mod_raw ctors =
     (case getConstructor mod_raw of
        Inl e \<Rightarrow> Inl e
      | Inr (ctor, rest) \<Rightarrow>
         (case match_punct (CHR ''|'') rest of
            None \<Rightarrow> Inr (ctors @ [ctor], rest)
          | Some rest' \<Rightarrow> getSumType_loop rest' (ctors @ [ctor])))"
  by pat_completeness auto
termination
  by (relation "measure (\<lambda>(s, cs). length s)")
     (auto dest!: getConstructor_less match_punct_less)

declare getSumType_loop.simps [simp del]

definition match_attributes :: "string \<Rightarrow> string option" where
  "match_attributes s =
     (case match_lit ''attributes'' (skip_spaces s) of
        None \<Rightarrow> None
      | Some r \<Rightarrow> Some (skip_spaces r))"

definition getSumType :: "string \<Rightarrow> parse_error + AbstractType \<times> string" where
  "getSumType mod_raw =
     (case getSumType_loop mod_raw [] of
        Inl e \<Rightarrow> Inl e
      | Inr (ctors, s1) \<Rightarrow>
         (case match_attributes s1 of
            None \<Rightarrow> Inr (SumType ctors [], s1)
          | Some s2 \<Rightarrow>
             (case getFields s2 of
                Inl e \<Rightarrow> Inl e
              | Inr (attrs, s3) \<Rightarrow> Inr (SumType ctors attrs, s3))))"


lemma getSumType_loop_less: "getSumType_loop s cs = Inr (cs', r) \<Longrightarrow> length r < length s"
proof (induction s cs rule: getSumType_loop.induct)
  case (1 mod_raw ctors)
  from "1.prems" obtain ctor rest where g: "getConstructor mod_raw = Inr (ctor, rest)"
    by (subst (asm) getSumType_loop.simps) (auto split: sum.splits)
  have l: "length rest < length mod_raw" using g by (rule getConstructor_less)
  show ?case
  proof (cases "match_punct (CHR ''|'') rest")
    case None
    with "1.prems" g l show ?thesis
      by (subst (asm) getSumType_loop.simps) simp
  next
    case (Some rest')
    with "1.prems" g have "getSumType_loop rest' (ctors @ [ctor]) = Inr (cs', r)"
      by (subst (asm) getSumType_loop.simps) simp
    with "1.IH" g Some have "length r < length rest'" by simp
    with match_punct_less [OF Some] l show ?thesis by simp
  qed
qed

lemma match_lit_le: "match_lit lit s = Some r \<Longrightarrow> length r \<le> length s"
  by (auto simp: match_lit_def split: if_splits)

lemma match_attributes_le: "match_attributes s = Some r \<Longrightarrow> length r \<le> length s"
proof -
  assume "match_attributes s = Some r"
  then obtain r' where r: "r = skip_spaces r'" and m: "match_lit ''attributes'' (skip_spaces s) = Some r'"
    by (auto simp: match_attributes_def split: option.splits)
  show ?thesis
    using match_lit_le [OF m] skip_spaces_le [of r'] skip_spaces_le [of s] r by simp
qed

lemma getSumType_less: "getSumType s = Inr (t, r) \<Longrightarrow> length r < length s"
  by (auto simp: getSumType_def split: option.splits sum.splits
        dest!: getSumType_loop_less match_attributes_le getFields_less)

definition default_types :: "string list" where
  "default_types = [''ident'', ''int'', ''char'', ''string'', ''str'', ''boolean'', ''bool'', ''float'']"

text \<open>The body of the \<open>try\<close> block of the main loop.\<close>

definition parse_type :: "string \<Rightarrow> string \<Rightarrow> parse_error + AbstractType \<times> string" where
  "parse_type tname mod_raw =
     (if tname = ''AST'' \<or> tname \<in> set default_types
      then Inl [''cannot redefine basic type.'']
      else if match_punct (CHR ''('') mod_raw = None then getSumType mod_raw
      else (case getFields mod_raw of
              Inl e \<Rightarrow> Inl e
            | Inr (flds, rest) \<Rightarrow> Inr (ProductType flds, rest)))"

lemma parse_type_less: "parse_type n s = Inr (t, r) \<Longrightarrow> length r < length s"
  by (auto simp: parse_type_def split: if_splits sum.splits dest: getSumType_less getFields_less)

text \<open>The pattern \<open>^\s*(\w+)\s*=\s*\<close> at the head of a type definition.\<close>

definition match_typedef :: "string \<Rightarrow> (string \<times> string) option" where
  "match_typedef s =
     (case match_word (skip_spaces s) of
        None \<Rightarrow> None
      | Some (tname, s1) \<Rightarrow>
         (case match_punct (CHR ''='') s1 of
            None \<Rightarrow> None
          | Some rest \<Rightarrow> Some (tname, rest)))"

lemma match_typedef_less: "match_typedef s = Some (n, r) \<Longrightarrow> length r < length s"
proof -
  assume a: "match_typedef s = Some (n, r)"
  then obtain s1 where m: "match_word (skip_spaces s) = Some (n, s1)"
      and p: "match_punct (CHR ''='') s1 = Some r"
    by (auto simp: match_typedef_def split: option.splits)
  show ?thesis
    using match_word_less [OF m] match_punct_less [OF p] skip_spaces_le [of s] by simp
qed

text \<open>
  The main loop \<open>while mod_raw.strip() != ""\<close> with the set \<open>defined\<close> and the list
  \<open>mod_body\<close>. The test for a name that is already defined comes before the \<open>try\<close>
  block, whose exceptions are raised again as the cause of \<open>in typedef of 'name'\<close>.
\<close>

definition quoted :: "string \<Rightarrow> string" where
  "quoted s = [CHR 0x27] @ s @ [CHR 0x27]"

function parse_typedefs :: "string \<Rightarrow> string list \<Rightarrow> TypeDef list \<Rightarrow> parse_error + TypeDef list" where
  "parse_typedefs mod_raw defined mod_body =
     (if list_all is_space mod_raw then Inr mod_body
      else case match_typedef mod_raw of
             None \<Rightarrow> Inl [''expected type definition'']
           | Some (tname, rest) \<Rightarrow>
               if tname \<in> set defined
               then Inl [''cannot define type '' @ quoted tname @ '' twice.'']
               else (case parse_type tname rest of
                       Inl e \<Rightarrow> Inl ((''in typedef of '' @ quoted tname) # e)
                     | Inr (type, rest') \<Rightarrow>
                         parse_typedefs rest' (tname # defined) (mod_body @ [TypeDef tname type])))"
  by pat_completeness auto
termination
  by (relation "measure (\<lambda>(s, d, b). length s)")
     (auto dest!: match_typedef_less parse_type_less)

declare parse_typedefs.simps [simp del]

text \<open>
  The type definitions at the start of a module body that are well formed: \<open>read_defs k\<close>
  reads \<open>k\<close> type definitions in a row, each with a head \<open>name =\<close> and a body that
  \<open>parse_type\<close> accepts for that name, and returns them with the text left. It does not
  compare the names.
\<close>

primrec read_defs :: "nat \<Rightarrow> string \<Rightarrow> (TypeDef list \<times> string) option" where
  "read_defs 0 mod_raw = Some ([], mod_raw)"
| "read_defs (Suc k) mod_raw =
     (if list_all is_space mod_raw then None
      else case match_typedef mod_raw of
             None \<Rightarrow> None
           | Some (tname, rest) \<Rightarrow>
              (case parse_type tname rest of
                 Inl e \<Rightarrow> None
               | Inr (type, rest') \<Rightarrow>
                  (case read_defs k rest' of
                     None \<Rightarrow> None
                   | Some (defs, rest'') \<Rightarrow> Some (TypeDef tname type # defs, rest''))))"

text \<open>\<open>re.sub(r"\-\-(.*)$", "", asdl_string, flags=re.MULTILINE)\<close>: from every
  \<open>--\<close> up to, not including, the end of its line.\<close>

function strip_comments :: "string \<Rightarrow> string" where
  "strip_comments (c1 # c2 # cs) =
     (if c1 = CHR ''-'' \<and> c2 = CHR ''-''
      then strip_comments (dropWhile (\<lambda>c. c \<noteq> newline) cs)
      else c1 # strip_comments (c2 # cs))"
| "strip_comments [c] = [c]"
| "strip_comments [] = []"
  by pat_completeness auto
termination
proof (relation "measure length")
  fix c1 c2 :: char and cs :: string
  have "length (dropWhile (\<lambda>c. c \<noteq> newline) cs) \<le> length cs"
    by (rule length_dropWhile_le)
  then show "(dropWhile (\<lambda>c. c \<noteq> newline) cs, c1 # c2 # cs) \<in> measure length"
    by simp
qed simp_all

text \<open>
  The pattern \<open>^\s*module\s+(\w+)\s*\{\s*(.*)\s*\}\s*(attributes\s*)?$\<close> of the module
  statement, with DOTALL and MULTILINE. \<open>$\<close> matches at the end of the text and before a
  newline. The tail \<open>\s*(attributes\s*)?$\<close> after the closing brace does backtrack:
  it matches when some number of leading spaces can be taken so that the rest, with or
  without \<open>attributes\<close> and some of the spaces after it, is at a line end. The greedy
  \<open>(.*)\<close> ends at the last closing brace whose tail matches; the group is the text
  between the spaces after the opening brace and that closing brace.
\<close>

definition at_line_end :: "string \<Rightarrow> bool" where
  "at_line_end s = (case s of [] \<Rightarrow> True | c # _ \<Rightarrow> c = newline)"

definition spaces_then :: "(string \<Rightarrow> bool) \<Rightarrow> string \<Rightarrow> bool" where
  "spaces_then p s = list_ex (\<lambda>k. p (drop k s)) [0..<Suc (length (takeWhile is_space s))]"

definition match_close :: "string \<Rightarrow> bool" where
  "match_close s =
     spaces_then (\<lambda>r. (case match_lit ''attributes'' r of
                          Some r' \<Rightarrow> spaces_then at_line_end r'
                        | None \<Rightarrow> False)
                      \<or> at_line_end r) s"

definition match_module :: "string \<Rightarrow> (string \<times> string) option" where
  "match_module s =
     (case match_lit ''module'' (skip_spaces s) of
        None \<Rightarrow> None
      | Some s1 \<Rightarrow>
         (case match_spaces1 s1 of
            None \<Rightarrow> None
          | Some s2 \<Rightarrow>
             (case match_word s2 of
                None \<Rightarrow> None
              | Some (name, s3) \<Rightarrow>
                 (case match_punct (CHR ''{'') s3 of
                    None \<Rightarrow> None
                  | Some s4 \<Rightarrow>
                     (case find (\<lambda>i. s4 ! i = CHR ''}'' \<and> match_close (drop (Suc i) s4))
                             (rev [0..<length s4]) of
                        None \<Rightarrow> None
                      | Some i \<Rightarrow> Some (name, take i s4))))))"

text \<open>\<open>ParseAsdl\<close>.\<close>

definition ParseAsdl :: "string \<Rightarrow> parse_error + Module" where
  "ParseAsdl asdl_string =
     (case match_module (strip_comments asdl_string) of
        None \<Rightarrow> Inl [''missing module statement'']
      | Some (name, mod_raw) \<Rightarrow>
         (case parse_typedefs mod_raw [] [] of
            Inl e \<Rightarrow> Inl e
          | Inr mod_body \<Rightarrow> Inr (Module name mod_body)))"

section \<open>Theorems: source segments\<close>

lemmas segment_defs = get_source_segment_def segment_of_def pop_front_def norm_index_def
  slice_to_def slice_from_def slice_bound_def

text \<open>
  C3 (as the spec states it, refuted). On the source text \<open>abc\ndef\n\<close> and a node
  spanning line 1, column 1 to line 2, column 2, the result is not \<open>bc\nde\<close>: the slice
  \<open>[:end_col_offset + 1]\<close> keeps the character at the end column.
\<close>

theorem get_source_segment_example_not_spec:
  "get_source_segment (''abc'' @ [newline] @ ''def'' @ [newline])
     (Node ''X'' [] [] (Some 1) (Some 1) (Some 2) (Some 2) []) False
   \<noteq> Inr (Some (''bc'' @ [newline] @ ''de''))"
  by (simp add: segment_defs)

text \<open>
  C3 (amended). On that source text, any node with start line 1, start column 1, end line 2
  and end column 2 (padded false) yields \<open>bc\ndef\<close>, the end column included; and for
  every source, every padded flag and every node whose \<open>end_lineno\<close> is unset the result
  is \<open>None\<close>.
\<close>

theorem get_source_segment_example:
  "get_source_segment (''abc'' @ [newline] @ ''def'' @ [newline])
     (Node k fs ats (Some 1) (Some 1) (Some 2) (Some 2) vs) False
   = Inr (Some (''bc'' @ [newline] @ ''def''))
   \<and> get_source_segment source (Node k' fs' ats' l c None ec vs') padded = Inr None"
  by (simp add: segment_defs split: option.splits)

text \<open>
  C10. A node whose start column is unset yields \<open>None\<close> also in padded mode, for every
  source: the presence check of the four coordinates precedes the padded override. When
  the start column is set, padded mode does not depend on its value.
\<close>

theorem get_source_segment_padded_unset_col:
  "(col_offset node = None \<longrightarrow> get_source_segment source node True = Inr None)
   \<and> get_source_segment source (Node k fs ats l (Some c) el ec vs) True
     = get_source_segment source (Node k fs ats l (Some c') el ec vs) True"
  by (simp add: get_source_segment_def split: option.splits)

theorem get_source_segment_padded_unset_col_witness:
  "get_source_segment (''  x = 1'' @ [newline])
     (Node ''Name'' [] [] (Some 1) None (Some 1) (Some 2) []) True = Inr None
   \<and> get_source_segment (''  x = 1'' @ [newline])
     (Node ''Name'' [] [] (Some 1) (Some 2) (Some 1) (Some 2) []) True
     = Inr (Some ''  x'')"
  using get_source_segment_padded_unset_col
    [of "Node ''Name'' [] [] (Some 1) None (Some 1) (Some 2) []" "''  x = 1'' @ [newline]"]
  by (simp add: segment_defs)

text \<open>Coordinates that are set but lie outside the source text are not answered with
  \<open>None\<close>: indexing the list of lines raises IndexError.\<close>

lemma get_source_segment_outside_source:
  "get_source_segment ''x'' (Node k fs ats (Some 2) (Some 0) (Some 2) (Some 0) vs) False
   = Inl IndexError"
  by (simp add: segment_defs)

section \<open>Theorems: traversal\<close>

text \<open>
  C5. \<open>iter_child_nodes\<close> yields the direct children as the specification enumerates
  them: over the declared attribute names and then the declared field names, each in
  declared order, a node value itself, the node elements of a sequence value in sequence
  order, and nothing for a name that is unset or holds any other value.
\<close>

theorem iter_child_nodes_direct_children:
  "iter_child_nodes node = direct_children node"
  by (simp add: direct_children_def iter_child_nodes_children_of_name)

lemma walk_todo_append:
  "walk_todo (xs @ concat (map iter_child_nodes ys))
   = xs @ walk_todo (concat (map iter_child_nodes (ys @ xs)))"
proof (induction xs arbitrary: ys)
  case Nil
  show ?case by simp
next
  case (Cons x xs)
  have "walk_todo ((x # xs) @ concat (map iter_child_nodes ys))
        = x # walk_todo (xs @ concat (map iter_child_nodes (ys @ [x])))"
    by simp
  also have "\<dots> = x # xs @ walk_todo (concat (map iter_child_nodes ((ys @ [x]) @ xs)))"
    by (simp only: Cons.IH)
  finally show ?case by simp
qed

lemma walk_todo_generation_step:
  "walk_todo xs = xs @ walk_todo (concat (map iter_child_nodes xs))"
  using walk_todo_append [of xs "[]"] by simp

lemma walk_todo_generations:
  "generation xs k = [] \<Longrightarrow> walk_todo xs = concat (map (generation xs) [0..<k])"
proof (induction k arbitrary: xs)
  case 0
  then show ?case by simp
next
  case (Suc k)
  let ?cs = "concat (map iter_child_nodes xs)"
  from Suc.prems have "generation ?cs k = []" by simp
  then have "walk_todo ?cs = concat (map (generation ?cs) [0..<k])" by (rule Suc.IH)
  moreover have "map (generation xs) [0..<Suc k] = xs # map (generation ?cs) [0..<k]"
    by (simp add: upt_conv_Cons map_Suc_upt [symmetric] del: upt_Suc)
  ultimately show ?case
    using walk_todo_generation_step [of xs] by simp
qed

lemma count_nodes_pos: "count_nodes node \<noteq> 0"
  by (subst count_nodes.simps) simp

lemma count_nodes_children:
  "sum_list (map count_nodes (concat (map iter_child_nodes xs))) + length xs
   = sum_list (map count_nodes xs)"
proof (induction xs)
  case Nil
  show ?case by simp
next
  case (Cons x xs)
  have "count_nodes x = Suc (sum_list (map count_nodes (iter_child_nodes x)))"
    by (rule count_nodes.simps)
  with Cons.IH show ?case by simp
qed

lemma generation_Nil: "generation [] k = []"
  by (induction k) simp_all

lemma generation_empty_after:
  "sum_list (map count_nodes xs) \<le> k \<Longrightarrow> generation xs k = []"
proof (induction k arbitrary: xs)
  case 0
  then show ?case by (cases xs) (simp_all add: count_nodes_pos)
next
  case (Suc k)
  show ?case
  proof (cases xs)
    case Nil
    then show ?thesis by (simp add: generation_Nil)
  next
    case (Cons y ys)
    with Suc.prems count_nodes_children [of xs]
    have "sum_list (map count_nodes (concat (map iter_child_nodes xs))) \<le> k" by simp
    then show ?thesis using Suc.IH by simp
  qed
qed

text \<open>
  C4. \<open>walk\<close> yields the node itself first and then its descendants generation by
  generation (breadth first): the generations are finite in number, and \<open>walk\<close> is the
  concatenation of generation 0 (the node), generation 1 (its children in
  \<open>iter_child_nodes\<close> order), generation 2 (their children, parent by parent), and so on
  up to the first empty generation. On a tree whose root has two children with one
  childless child each, \<open>walk\<close> yields exactly the five nodes, the root first.
\<close>

theorem walk_breadth_first:
  "hd (walk node) = node
   \<and> (\<exists>k. generation [node] k = [])
   \<and> (\<forall>k. generation [node] k = [] \<longrightarrow> walk node = concat (map (generation [node]) [0..<k]))
   \<and> (iter_child_nodes node = [a, b] \<and> iter_child_nodes a = [c] \<and> iter_child_nodes b = [d]
        \<and> iter_child_nodes c = [] \<and> iter_child_nodes d = []
      \<longrightarrow> walk node = [node, a, b, c, d])"
proof -
  have "generation [node] (count_nodes node) = []"
    by (rule generation_empty_after) (simp add: count_nodes.simps [of node])
  then have "\<exists>k. generation [node] k = []" ..
  moreover have "hd (walk node) = node"
    by (simp add: walk_def)
  moreover have "\<forall>k. generation [node] k = [] \<longrightarrow> walk node = concat (map (generation [node]) [0..<k])"
    unfolding walk_def using walk_todo_generations [of "[node]"] by blast
  moreover have "iter_child_nodes node = [a, b] \<and> iter_child_nodes a = [c] \<and> iter_child_nodes b = [d]
        \<and> iter_child_nodes c = [] \<and> iter_child_nodes d = []
      \<longrightarrow> walk node = [node, a, b, c, d]"
    by (simp add: walk_def)
  ultimately show ?thesis by blast
qed

theorem walk_breadth_first_witness:
  "walk example_module
     = [example_module, unary ''A'' (leaf ''C''), unary ''B'' (leaf ''D''), leaf ''C'', leaf ''D'']
   \<and> generation [example_module] 3 = []
   \<and> walk example_module = concat (map (generation [example_module]) [0..<3])"
  using walk_breadth_first [of example_module "unary ''A'' (leaf ''C'')"
      "unary ''B'' (leaf ''D'')" "leaf ''C''" "leaf ''D''"]
  by (simp add: example_module_def unary_def leaf_def iter_child_nodes_def iter_attribs_def
        iter_fields_def getattr_def numeral_3_eq_3)

section \<open>Theorems: the transformer\<close>

text \<open>Whenever the loop over a list meets an element that is a node and the instance has
  no method \<open>visit_list\<close>, the generic handler runs on the list and raises.\<close>

lemma rewrite_list_node_raises:
  "is_node v \<Longrightarrow> methods ''visit_list'' = None \<Longrightarrow>
   rewrite_list (transformer_visit (Suc depth) methods) old (v # rest) new = Inl AttributeError"
  by (simp add: visit_def NodeTransformer_generic_visit_def)

text \<open>
  C1 (the code at the failing input). The method \<open>visit_Expr\<close> returns two replacement
  nodes, and the field \<open>body\<close> of the visited node is the list of one \<open>Expr\<close> node. The
  generic handler does not visit the element: it visits the list \<open>old\<close> itself, for which
  there is no method \<open>visit_list\<close>, so the generic handler runs on the list, and reading
  \<open>_attribs\<close> of a list raises AttributeError, at every recursion depth. The list is not
  rewritten and \<open>visit_Expr\<close> is never called.
\<close>

theorem generic_visit_two_for_one_raises:
  "NodeTransformer_generic_visit (transformer_visit (Suc depth) two_for_one)
     (VNode (Node ''Module'' [''body''] [] None None None None
        [(''body'', VList [VNode (leaf ''Expr'')])]))
   = Inl AttributeError"
  by (simp add: NodeTransformer_generic_visit_def visit_def getattr_def two_for_one_def
        is_node_def leaf_def)

text \<open>
  C2 (the code at the failing input). The default transformer, without any method of its
  own, on a module whose field \<open>body\<close> is a list of two nodes: \<open>visit\<close> raises
  AttributeError instead of returning, at every recursion depth that lets the generic
  handler run.
\<close>

theorem transformer_visit_list_field_raises:
  "transformer_visit (Suc (Suc depth)) (\<lambda>name. None) (VNode example_module)
   = Inl AttributeError"
  by (simp add: NodeTransformer_generic_visit_def visit_def getattr_def example_module_def
        is_node_def)

section \<open>Theorems: the schema parser\<close>

lemma space_not_word: "is_space c \<Longrightarrow> \<not> is_word c"
  by (auto simp: is_space_def is_word_def is_upper_def)

lemma skip_spaces_word: "is_word c \<Longrightarrow> skip_spaces (c # s) = c # s"
  using space_not_word [of c] by (auto simp: skip_spaces_def)

lemma skip_spaces_Nil: "skip_spaces [] = []"
  by (simp add: skip_spaces_def)

lemma match_word_append:
  assumes "w \<noteq> []" "\<forall>c\<in>set w. is_word c" "r = [] \<or> \<not> is_word (hd r)"
  shows "match_word (w @ r) = Some (w, r)"
proof -
  have "takeWhile is_word (w @ r) = w \<and> dropWhile is_word (w @ r) = r"
    using assms(2,3) by (cases r) (auto simp: takeWhile_append2 dropWhile_append2)
  with assms(1) show ?thesis by (simp add: match_word_def)
qed

lemma getField_text:
  assumes t: "t \<noteq> []" "\<forall>c\<in>set t. is_word c" and f: "f \<noteq> []" "\<forall>c\<in>set f. is_word c"
    and m: "set m \<subseteq> set ''?*+''" "length m \<le> 1"
  shows "getField (t @ m @ '' '' @ f)
         = Inr (Field t f (m = ''?'' \<or> m = ''*'') (m = ''*'' \<or> m = ''+''), [])"
proof -
  obtain c t' where tc: "t = c # t'" using t(1) by (cases t) auto
  obtain d f' where fd: "f = d # f'" using f(1) by (cases f) auto
  have "is_word c" using t(2) tc by simp
  then have s0: "skip_spaces (t @ m @ '' '' @ f) = t @ m @ '' '' @ f"
    using tc by (simp add: skip_spaces_word)
  have nw: "\<not> is_word (hd (m @ '' '' @ f))"
    using m by (cases m) (auto simp: is_word_def is_upper_def)
  have w1: "match_word (t @ m @ '' '' @ f) = Some (t, m @ '' '' @ f)"
    using t nw by (intro match_word_append) auto
  have sym: "match_symbol (m @ '' '' @ f) = ((case m of [] \<Rightarrow> None | x # _ \<Rightarrow> Some x), '' '' @ f)"
    using m by (cases m) (auto simp: match_symbol_def)
  have "is_word d" using f(2) fd by simp
  then have sp: "match_spaces1 ('' '' @ f) = Some f"
    using fd by (simp add: match_spaces1_def is_space_def skip_spaces_word)
  have w2: "match_word f = Some (f, [])"
    using match_word_append [of f "[]"] f by simp
  have "match_field (t @ m @ '' '' @ f) = Some (t, (case m of [] \<Rightarrow> None | x # _ \<Rightarrow> Some x), f, [])"
    unfolding match_field_def s0 w1 using sym sp w2 by (simp add: skip_spaces_Nil)
  then show ?thesis
    using m by (cases m) (auto simp: getField_def)
qed

text \<open>
  C8. The marker decides the two multiplicity flags of a parsed Field. Whenever the field
  pattern matches with marker group \<open>m\<close>, the marker is absent, \<open>?\<close>, \<open>*\<close> or \<open>+\<close>, and
  \<open>getField\<close> returns the Field with \<open>can_none\<close> true exactly for \<open>?\<close> and \<open>*\<close>, and
  \<open>can_many\<close> true exactly for \<open>*\<close> and \<open>+\<close>. On the text of a field with type name
  \<open>tn\<close> and field name \<open>fn\<close> (non-empty words): no marker gives false and false,
  \<open>?\<close> gives true and false, \<open>*\<close> gives true and true, \<open>+\<close> gives false and true.
\<close>

theorem getField_multiplicity:
  "(match_field s = Some (t, m, f, r) \<longrightarrow>
      m \<in> {None, Some (CHR ''?''), Some (CHR ''*''), Some (CHR ''+'')}
      \<and> getField s = Inr (Field t f (m = Some (CHR ''?'') \<or> m = Some (CHR ''*''))
                                    (m = Some (CHR ''*'') \<or> m = Some (CHR ''+'')), r))
   \<and> (tn \<noteq> [] \<and> fn \<noteq> [] \<and> (\<forall>c\<in>set (tn @ fn). is_word c) \<longrightarrow>
        getField (tn @ '' '' @ fn) = Inr (Field tn fn False False, [])
      \<and> getField (tn @ ''? '' @ fn) = Inr (Field tn fn True False, [])
      \<and> getField (tn @ ''* '' @ fn) = Inr (Field tn fn True True, [])
      \<and> getField (tn @ ''+ '' @ fn) = Inr (Field tn fn False True, []))"
proof -
  have a: "match_field s = Some (t, m, f, r) \<longrightarrow>
      m \<in> {None, Some (CHR ''?''), Some (CHR ''*''), Some (CHR ''+'')}
      \<and> getField s = Inr (Field t f (m = Some (CHR ''?'') \<or> m = Some (CHR ''*''))
                                    (m = Some (CHR ''*'') \<or> m = Some (CHR ''+'')), r)"
  proof
    assume mf: "match_field s = Some (t, m, f, r)"
    then obtain s1 s2 where "match_symbol s1 = (m, s2)"
      by (auto simp: match_field_def split: option.splits prod.splits)
    then have "m \<in> {None, Some (CHR ''?''), Some (CHR ''*''), Some (CHR ''+'')}"
      by (auto simp: match_symbol_def split: list.splits if_splits)
    then show "m \<in> {None, Some (CHR ''?''), Some (CHR ''*''), Some (CHR ''+'')}
      \<and> getField s = Inr (Field t f (m = Some (CHR ''?'') \<or> m = Some (CHR ''*''))
                                    (m = Some (CHR ''*'') \<or> m = Some (CHR ''+'')), r)"
      using mf by (auto simp: getField_def)
  qed
  have b: "tn \<noteq> [] \<and> fn \<noteq> [] \<and> (\<forall>c\<in>set (tn @ fn). is_word c) \<longrightarrow>
        getField (tn @ '' '' @ fn) = Inr (Field tn fn False False, [])
      \<and> getField (tn @ ''? '' @ fn) = Inr (Field tn fn True False, [])
      \<and> getField (tn @ ''* '' @ fn) = Inr (Field tn fn True True, [])
      \<and> getField (tn @ ''+ '' @ fn) = Inr (Field tn fn False True, [])"
  proof
    assume h: "tn \<noteq> [] \<and> fn \<noteq> [] \<and> (\<forall>c\<in>set (tn @ fn). is_word c)"
    then have t: "tn \<noteq> []" "\<forall>c\<in>set tn. is_word c" and f: "fn \<noteq> []" "\<forall>c\<in>set fn. is_word c"
      by auto
    show "getField (tn @ '' '' @ fn) = Inr (Field tn fn False False, [])
      \<and> getField (tn @ ''? '' @ fn) = Inr (Field tn fn True False, [])
      \<and> getField (tn @ ''* '' @ fn) = Inr (Field tn fn True True, [])
      \<and> getField (tn @ ''+ '' @ fn) = Inr (Field tn fn False True, [])"
      using getField_text [OF t f, of "[]"] getField_text [OF t f, of "''?''"]
        getField_text [OF t f, of "''*''"] getField_text [OF t f, of "''+''"]
      by simp
  qed
  from a b show ?thesis by blast
qed

theorem getField_multiplicity_witness:
  "getField ''expr* body) rest'' = Inr (Field ''expr'' ''body'' True True, '') rest'')
   \<and> getField ''int x'' = Inr (Field ''int'' ''x'' False False, [])
   \<and> getField ''int? x'' = Inr (Field ''int'' ''x'' True False, [])
   \<and> getField ''int* x'' = Inr (Field ''int'' ''x'' True True, [])
   \<and> getField ''int+ x'' = Inr (Field ''int'' ''x'' False True, [])"
  using getField_multiplicity [of "''expr* body) rest''" "''expr''" "Some (CHR ''*'')" "''body''" "'') rest''" "''int''" "''x''"]
  by (simp add: match_field_def match_word_def match_symbol_def match_spaces1_def skip_spaces_def
        is_word_def is_upper_def is_space_def)

lemma parse_typedefs_fresh:
  "parse_typedefs mod_raw defined mod_body = Inr out \<Longrightarrow>
   \<exists>new. out = mod_body @ new \<and> distinct (map type_name new)
        \<and> set (map type_name new) \<inter> set defined = {}"
proof (induction mod_raw defined mod_body rule: parse_typedefs.induct)
  case (1 mod_raw defined mod_body)
  show ?case
  proof (cases "list_all is_space mod_raw")
    case True
    with "1.prems" show ?thesis
      by (subst (asm) parse_typedefs.simps) simp
  next
    case False
    with "1.prems" obtain tname rest where h: "match_typedef mod_raw = Some (tname, rest)"
      by (subst (asm) parse_typedefs.simps) (auto split: option.splits)
    with "1.prems" False have fresh: "tname \<notin> set defined"
      by (subst (asm) parse_typedefs.simps) (auto split: if_splits)
    with "1.prems" False h obtain type rest' where
      p: "parse_type tname rest = Inr (type, rest')"
      by (subst (asm) parse_typedefs.simps) (auto split: sum.splits)
    with "1.prems" False h fresh
    have r: "parse_typedefs rest' (tname # defined) (mod_body @ [TypeDef tname type]) = Inr out"
      by (subst (asm) parse_typedefs.simps) simp
    from "1.IH" [OF False h refl fresh p refl r]
    obtain new where n: "out = (mod_body @ [TypeDef tname type]) @ new"
        "distinct (map type_name new)"
        "set (map type_name new) \<inter> set (tname # defined) = {}"
      by blast
    then have "out = mod_body @ (TypeDef tname type # new)
        \<and> distinct (map type_name (TypeDef tname type # new))
        \<and> set (map type_name (TypeDef tname type # new)) \<inter> set defined = {}"
      using fresh by auto
    then show ?thesis by blast
  qed
qed

lemma read_defs_Suc:
  assumes "read_defs (Suc k) s = Some (defs, rest)"
  obtains n r ty r' ds where "\<not> list_all is_space s" "match_typedef s = Some (n, r)"
    "parse_type n r = Inr (ty, r')" "read_defs k r' = Some (ds, rest)" "defs = TypeDef n ty # ds"
  using assms by (auto split: if_splits option.splits sum.splits)

lemma read_defs_length: "read_defs k s = Some (defs, rest) \<Longrightarrow> length defs = k"
proof (induction k arbitrary: s defs)
  case 0
  then show ?case by simp
next
  case (Suc k)
  from Suc.prems obtain n r ty r' ds where "read_defs k r' = Some (ds, rest)" "defs = TypeDef n ty # ds"
    by (rule read_defs_Suc)
  with Suc.IH show ?case by auto
qed

lemma parse_typedefs_read_defs:
  "read_defs k s = Some (defs, mid) \<Longrightarrow> distinct (map type_name defs) \<Longrightarrow>
   set (map type_name defs) \<inter> set defined = {} \<Longrightarrow>
   parse_typedefs s defined body
   = parse_typedefs mid (rev (map type_name defs) @ defined) (body @ defs)"
proof (induction k arbitrary: s defs defined body)
  case 0
  then show ?case by simp
next
  case (Suc k)
  from Suc.prems(1) obtain n r ty r' ds where h: "\<not> list_all is_space s"
      "match_typedef s = Some (n, r)" "parse_type n r = Inr (ty, r')"
      and rd: "read_defs k r' = Some (ds, mid)" and d: "defs = TypeDef n ty # ds"
    by (rule read_defs_Suc)
  from Suc.prems(2,3) d have fresh: "n \<notin> set defined" and dd: "distinct (map type_name ds)"
      and di: "set (map type_name ds) \<inter> set (n # defined) = {}"
    by auto
  have "parse_typedefs s defined body = parse_typedefs r' (n # defined) (body @ [TypeDef n ty])"
    using h fresh by (subst parse_typedefs.simps) simp
  also have "\<dots> = parse_typedefs mid (rev (map type_name ds) @ n # defined)
                      ((body @ [TypeDef n ty]) @ ds)"
    using rd dd di by (rule Suc.IH)
  finally show ?case using d by simp
qed

lemma parse_typedefs_repeat:
  assumes "read_defs k s = Some (defs, mid)" "distinct (map type_name defs)"
    "set (map type_name defs) \<inter> set defined = {}"
    "\<not> list_all is_space mid" "match_typedef mid = Some (n, r)"
    "n \<in> set (map type_name defs) \<union> set defined"
  shows "parse_typedefs s defined body = Inl [''cannot define type '' @ quoted n @ '' twice.'']"
proof -
  have "parse_typedefs s defined body
        = parse_typedefs mid (rev (map type_name defs) @ defined) (body @ defs)"
    using assms(1-3) by (rule parse_typedefs_read_defs)
  also have "\<dots> = Inl [''cannot define type '' @ quoted n @ '' twice.'']"
    using assms(4-6) by (subst parse_typedefs.simps) auto
  finally show ?thesis .
qed

lemma read_defs_split:
  "read_defs k s = Some (pre @ d # post, rest) \<Longrightarrow>
   \<exists>mid r. read_defs (length pre) s = Some (pre, mid) \<and> \<not> list_all is_space mid
        \<and> match_typedef mid = Some (type_name d, r)"
proof (induction pre arbitrary: k s)
  case Nil
  from Nil have "length ([] @ d # post) = k" by (rule read_defs_length)
  then obtain k' where k: "k = Suc k'" by (cases k) auto
  from Nil [unfolded k] obtain n r ty r' ds where "\<not> list_all is_space s"
      "match_typedef s = Some (n, r)" "[] @ d # post = TypeDef n ty # ds"
    by (rule read_defs_Suc)
  then show ?case by auto
next
  case (Cons p pre)
  from Cons.prems have "length ((p # pre) @ d # post) = k" by (rule read_defs_length)
  then obtain k' where k: "k = Suc k'" by (cases k) auto
  from Cons.prems [unfolded k] obtain n r ty r' ds where h: "\<not> list_all is_space s"
      "match_typedef s = Some (n, r)" "parse_type n r = Inr (ty, r')"
      and rd: "read_defs k' r' = Some (ds, rest)" and d: "(p # pre) @ d # post = TypeDef n ty # ds"
    by (rule read_defs_Suc)
  from d have p: "p = TypeDef n ty" and ds: "ds = pre @ d # post" by auto
  from Cons.IH [OF rd [unfolded ds]] obtain mid r2 where
    "read_defs (length pre) r' = Some (pre, mid)" "\<not> list_all is_space mid"
    "match_typedef mid = Some (type_name d, r2)"
    by blast
  with h p show ?case by auto
qed

lemma parse_typedefs_reads:
  "parse_typedefs mod_raw defined mod_body = Inr out \<Longrightarrow>
   \<exists>new rest. out = mod_body @ new \<and> read_defs (length new) mod_raw = Some (new, rest)
        \<and> list_all is_space rest"
proof (induction mod_raw defined mod_body rule: parse_typedefs.induct)
  case (1 mod_raw defined mod_body)
  show ?case
  proof (cases "list_all is_space mod_raw")
    case True
    with "1.prems" have "out = mod_body"
      by (subst (asm) parse_typedefs.simps) simp
    with True show ?thesis by simp
  next
    case False
    with "1.prems" obtain tname rest where h: "match_typedef mod_raw = Some (tname, rest)"
      by (subst (asm) parse_typedefs.simps) (auto split: option.splits)
    with "1.prems" False have fresh: "tname \<notin> set defined"
      by (subst (asm) parse_typedefs.simps) (auto split: if_splits)
    with "1.prems" False h obtain type rest' where
      p: "parse_type tname rest = Inr (type, rest')"
      by (subst (asm) parse_typedefs.simps) (auto split: sum.splits)
    with "1.prems" False h fresh
    have r: "parse_typedefs rest' (tname # defined) (mod_body @ [TypeDef tname type]) = Inr out"
      by (subst (asm) parse_typedefs.simps) simp
    from "1.IH" [OF False h refl fresh p refl r]
    obtain new rest2 where n: "out = (mod_body @ [TypeDef tname type]) @ new"
        "read_defs (length new) rest' = Some (new, rest2)" "list_all is_space rest2"
      by blast
    then have "out = mod_body @ (TypeDef tname type # new)
        \<and> read_defs (length (TypeDef tname type # new)) mod_raw = Some (TypeDef tname type # new, rest2)
        \<and> list_all is_space rest2"
      using False h p by simp
    then show ?thesis by blast
  qed
qed


text \<open>
  C7 (as the spec states it, refuted). A text that defines a type name twice does not
  always fail with the duplicate-name diagnostic: parsing stops at the first error. In
  both texts below \<open>A\<close> is defined twice; the first fails in the definition of the
  built-in name \<open>int\<close>, the second in the constructor \<open>lower\<close> of \<open>B\<close>, each before the
  second definition of \<open>A\<close> is reached.
\<close>

theorem ParseAsdl_repeated_name_other_diagnostic:
  "ParseAsdl ''module M { int = (int x) A = (int x) A = (int x) }''
     = Inl [''in typedef of '' @ quoted ''int'', ''cannot redefine basic type.'']
   \<and> ParseAsdl ''module M { int = (int x) A = (int x) A = (int x) }''
     \<noteq> Inl [''cannot define type '' @ quoted ''A'' @ '' twice.'']
   \<and> ParseAsdl ''module M { A = (int x) B = lower A = (int x) }''
     = Inl [''in typedef of '' @ quoted ''B'',
            ''constructor name must start with an uppercase later'']
   \<and> ParseAsdl ''module M { A = (int x) B = lower A = (int x) }''
     \<noteq> Inl [''cannot define type '' @ quoted ''A'' @ '' twice.'']"
  by code_simp

text \<open>
  C7 (amended). A Module is returned only for a text whose module body is a sequence of
  type definitions with pairwise distinct names, all of which are in the Module. For
  every text whose module body starts with well-formed type definitions (\<open>read_defs\<close>)
  among whose names one occurs twice, parsing fails with the duplicate-name diagnostic for
  a repeated name; precisely, when the well-formed definitions read so far have distinct
  names and the next definition head repeats one of them, the failure is
  \<open>cannot define type 'name' twice.\<close> for that name. In particular the text
  \<open>module M { A = (int x) B = (int x) A = (int x) }\<close> fails with that diagnostic for \<open>A\<close>.
\<close>

theorem ParseAsdl_repeated_type_name:
  "(ParseAsdl text = Inr m \<longrightarrow>
      distinct (map type_name (typedefs m))
      \<and> (\<exists>mod_raw rest. match_module (strip_comments text) = Some (mod_name m, mod_raw)
            \<and> read_defs (length (typedefs m)) mod_raw = Some (typedefs m, rest)
            \<and> list_all is_space rest))
   \<and> (match_module (strip_comments text) = Some (name, mod_raw)
        \<and> read_defs k mod_raw = Some (defs, rest)
        \<and> \<not> distinct (map type_name defs) \<longrightarrow>
      (\<exists>n. n \<in> set (map type_name defs)
         \<and> ParseAsdl text = Inl [''cannot define type '' @ quoted n @ '' twice.'']))
   \<and> (match_module (strip_comments text) = Some (name, mod_raw)
        \<and> read_defs k' mod_raw = Some (defs', mid)
        \<and> distinct (map type_name defs')
        \<and> \<not> list_all is_space mid \<and> match_typedef mid = Some (tname, r)
        \<and> tname \<in> set (map type_name defs') \<longrightarrow>
      ParseAsdl text = Inl [''cannot define type '' @ quoted tname @ '' twice.''])
   \<and> ParseAsdl ''module M { A = (int x) B = (int x) A = (int x) }''
        = Inl [''cannot define type '' @ quoted ''A'' @ '' twice.'']"
proof -
  have a: "ParseAsdl text = Inr m \<longrightarrow>
      distinct (map type_name (typedefs m))
      \<and> (\<exists>mod_raw rest. match_module (strip_comments text) = Some (mod_name m, mod_raw)
            \<and> read_defs (length (typedefs m)) mod_raw = Some (typedefs m, rest)
            \<and> list_all is_space rest)"
  proof
    assume p: "ParseAsdl text = Inr m"
    then obtain nm raw body where mm: "match_module (strip_comments text) = Some (nm, raw)"
        and pt: "parse_typedefs raw [] [] = Inr body" and m: "m = Module nm body"
      by (auto simp: ParseAsdl_def split: option.splits sum.splits)
    from parse_typedefs_fresh [OF pt] have "distinct (map type_name body)" by auto
    moreover from parse_typedefs_reads [OF pt] obtain rest where
      "read_defs (length body) raw = Some (body, rest)" "list_all is_space rest"
      by auto
    ultimately show "distinct (map type_name (typedefs m))
      \<and> (\<exists>mod_raw rest. match_module (strip_comments text) = Some (mod_name m, mod_raw)
            \<and> read_defs (length (typedefs m)) mod_raw = Some (typedefs m, rest)
            \<and> list_all is_space rest)"
      using mm m by auto
  qed
  have c: "\<And>k' defs' mid tname r. match_module (strip_comments text) = Some (name, mod_raw)
        \<and> read_defs k' mod_raw = Some (defs', mid)
        \<and> distinct (map type_name defs')
        \<and> \<not> list_all is_space mid \<and> match_typedef mid = Some (tname, r)
        \<and> tname \<in> set (map type_name defs') \<longrightarrow>
      ParseAsdl text = Inl [''cannot define type '' @ quoted tname @ '' twice.'']"
  proof
    fix k' defs' mid tname r
    assume h: "match_module (strip_comments text) = Some (name, mod_raw)
        \<and> read_defs k' mod_raw = Some (defs', mid)
        \<and> distinct (map type_name defs')
        \<and> \<not> list_all is_space mid \<and> match_typedef mid = Some (tname, r)
        \<and> tname \<in> set (map type_name defs')"
    then have "parse_typedefs mod_raw [] []
        = Inl [''cannot define type '' @ quoted tname @ '' twice.'']"
      by (intro parse_typedefs_repeat [of k' mod_raw defs' mid]) auto
    with h show "ParseAsdl text = Inl [''cannot define type '' @ quoted tname @ '' twice.'']"
      by (simp add: ParseAsdl_def)
  qed
  have b: "match_module (strip_comments text) = Some (name, mod_raw)
        \<and> read_defs k mod_raw = Some (defs, rest)
        \<and> \<not> distinct (map type_name defs) \<longrightarrow>
      (\<exists>n. n \<in> set (map type_name defs)
         \<and> ParseAsdl text = Inl [''cannot define type '' @ quoted n @ '' twice.''])"
  proof
    assume h: "match_module (strip_comments text) = Some (name, mod_raw)
        \<and> read_defs k mod_raw = Some (defs, rest)
        \<and> \<not> distinct (map type_name defs)"
    then obtain xs y ys where y: "y \<in> set xs" "distinct xs"
        and n: "map type_name defs = xs @ y # ys"
      using not_distinct_conv_prefix [of "map type_name defs"] by blast
    from n obtain pre d post where d: "defs = pre @ d # post" "map type_name pre = xs"
        "type_name d = y"
      by (auto simp: map_eq_append_conv map_eq_Cons_conv)
    from h d(1) have "read_defs k mod_raw = Some (pre @ d # post, rest)" by simp
    from read_defs_split [OF this] obtain mid r where
      m: "read_defs (length pre) mod_raw = Some (pre, mid)" "\<not> list_all is_space mid"
        "match_typedef mid = Some (y, r)"
      using d(3) by auto
    from c [of "length pre" pre mid y r] h m y d(2)
    have "ParseAsdl text = Inl [''cannot define type '' @ quoted y @ '' twice.'']" by simp
    moreover have "y \<in> set (map type_name defs)" using n by simp
    ultimately show "\<exists>n. n \<in> set (map type_name defs)
         \<and> ParseAsdl text = Inl [''cannot define type '' @ quoted n @ '' twice.'']"
      by blast
  qed
  have e: "ParseAsdl ''module M { A = (int x) B = (int x) A = (int x) }''
        = Inl [''cannot define type '' @ quoted ''A'' @ '' twice.'']"
    by code_simp
  from a b c [of k' defs' mid tname r] e show ?thesis by blast
qed

theorem ParseAsdl_repeated_type_name_witness:
  "ParseAsdl ''module M { A = (int x) B = Leaf }''
     = Inr (Module ''M''
         [TypeDef ''A'' (ProductType [Field ''int'' ''x'' False False]),
          TypeDef ''B'' (SumType [Constructor ''Leaf'' []] [])])
   \<and> read_defs 2 ''A = (int x) B = Leaf A = (A? y) ''
     = Some ([TypeDef ''A'' (ProductType [Field ''int'' ''x'' False False]),
              TypeDef ''B'' (SumType [Constructor ''Leaf'' []] [])], ''A = (A? y) '')
   \<and> ParseAsdl ''module M { A = (int x) B = Leaf A = (A? y) }''
     = Inl [''cannot define type '' @ quoted ''A'' @ '' twice.'']"
proof -
  let ?defs = "[TypeDef ''A'' (ProductType [Field ''int'' ''x'' False False]),
          TypeDef ''B'' (SumType [Constructor ''Leaf'' []] [])]"
  have h1: "ParseAsdl ''module M { A = (int x) B = Leaf }'' = Inr (Module ''M'' ?defs)"
    by code_simp
  have h2: "match_module (strip_comments ''module M { A = (int x) B = Leaf A = (A? y) }'')
      = Some (''M'', ''A = (int x) B = Leaf A = (A? y) '')"
    by code_simp
  have h3: "read_defs 2 ''A = (int x) B = Leaf A = (A? y) '' = Some (?defs, ''A = (A? y) '')"
    by code_simp
  have h4: "\<not> list_all is_space ''A = (A? y) ''"
    by code_simp
  have h5: "match_typedef ''A = (A? y) '' = Some (''A'', ''(A? y) '')"
    by code_simp
  have "ParseAsdl ''module M { A = (int x) B = Leaf A = (A? y) }''
     = Inl [''cannot define type '' @ quoted ''A'' @ '' twice.'']"
    using ParseAsdl_repeated_type_name [of "''module M { A = (int x) B = Leaf A = (A? y) }''"
        m "''M''" "''A = (int x) B = Leaf A = (A? y) ''" k defs rest 2 ?defs "''A = (A? y) ''"
        "''A''" "''(A? y) ''"] h2 h3 h4 h5
    by simp
  with h1 h3 show ?thesis by blast
qed

section \<open>Theorems: locations\<close>

lemma getattr_container:
  "getattr node name = Some v \<Longrightarrow> (\<exists>c. v = VNode c) \<or> (\<exists>items. v = VList items) \<Longrightarrow>
   name \<notin> set slot_names \<and> map_of (vals node) name = Some v"
  by (auto simp: getattr_def coord_value_def slot_names_def split: if_splits option.splits)

lemma map_of_assign: "map_of (assign name v kvs) k = (if k = name then Some v else map_of kvs k)"
  by (induction kvs) auto

lemma vals_with_vals [simp]: "vals (with_vals node vs) = vs"
  by (cases node) simp

lemma sels_with_vals [simp]:
  "cls (with_vals node vs) = cls node" "fields (with_vals node vs) = fields node"
  "attribs (with_vals node vs) = attribs node" "lineno (with_vals node vs) = lineno node"
  "col_offset (with_vals node vs) = col_offset node" "end_lineno (with_vals node vs) = end_lineno node"
  "end_col_offset (with_vals node vs) = end_col_offset node"
  by (cases node; simp)+

lemma getattr_setattr:
  "name \<notin> set slot_names \<Longrightarrow>
   getattr (setattr node name v) k = (if k = name then Some v else getattr node k)"
  by (auto simp: getattr_def setattr_def slot_names_def map_of_assign)

lemma deref_assign_ref:
  assumes "deref node r = Some old"
  shows "deref (assign_ref node r child) r' = (if r' = r then Some child else deref node r')"
proof (cases r)
  case (Direct name)
  with assms have g: "getattr node name = Some (VNode old)"
    by (auto split: option.splits val.splits)
  then have n: "name \<notin> set slot_names" using getattr_container by blast
  show ?thesis
    using Direct g n by (cases r') (auto simp: getattr_setattr split: option.splits val.splits)
next
  case (Item name i)
  with assms obtain items where g: "getattr node name = Some (VList items)" and i: "i < length items"
    by (auto split: option.splits val.splits if_splits)
  then have n: "name \<notin> set slot_names" using getattr_container by blast
  show ?thesis
    using Item g n i
    by (cases r') (auto simp: getattr_setattr nth_list_update split: option.splits val.splits)
qed

lemma slots_assign_ref [simp]:
  "lineno (assign_ref node r child) = lineno node"
  "col_offset (assign_ref node r child) = col_offset node"
  "end_lineno (assign_ref node r child) = end_lineno node"
  "end_col_offset (assign_ref node r child) = end_col_offset node"
  "cls (assign_ref node r child) = cls node"
  "fields (assign_ref node r child) = fields node"
  "attribs (assign_ref node r child) = attribs node"
  by (cases r; simp add: setattr_def split: option.splits val.splits)+

lemma sels_bump_lines [simp]:
  "lineno (bump_lines n node) = map_option (\<lambda>x. x + n) (lineno node)"
  "end_lineno (bump_lines n node) = map_option (\<lambda>x. x + n) (end_lineno node)"
  "col_offset (bump_lines n node) = col_offset node"
  "end_col_offset (bump_lines n node) = end_col_offset node"
  "vals (bump_lines n node) = vals node"
  "fields (bump_lines n node) = fields node"
  "attribs (bump_lines n node) = attribs node"
  "cls (bump_lines n node) = cls node"
  by (cases node; simp split: option.splits)+

lemma deref_vals:
  "deref node r = Some c \<Longrightarrow> vals node' = vals node \<Longrightarrow> deref node' r = Some c"
proof (cases r)
  case (Direct name)
  assume a: "deref node r = Some c" "vals node' = vals node"
  with Direct have g: "getattr node name = Some (VNode c)"
    by (auto split: option.splits val.splits)
  from getattr_container [OF g] a(2) have "getattr node' name = Some (VNode c)"
    by (auto simp: getattr_def slot_names_def)
  with Direct show ?thesis by simp
next
  case (Item name i)
  assume a: "deref node r = Some c" "vals node' = vals node"
  with Item obtain items where g: "getattr node name = Some (VList items)"
    by (auto split: option.splits val.splits)
  from getattr_container [OF g] a(2) have "getattr node' name = Some (VList items)"
    by (auto simp: getattr_def slot_names_def)
  with Item a g show ?thesis by simp
qed

lemma deref_bump_lines: "deref (bump_lines n node) r = deref node r"
proof (cases "deref node r")
  case (Some c)
  then show ?thesis using deref_vals [of node r c "bump_lines n node"] by simp
next
  case None
  show ?thesis
  proof (cases "deref (bump_lines n node) r")
    case None
    with \<open>deref node r = None\<close> show ?thesis by simp
  next
    case (Some c)
    then have "deref node r = Some c"
      using deref_vals [of "bump_lines n node" r c node] by simp
    with None show ?thesis by simp
  qed
qed

lemma coords_assign_ref [simp]: "coords (assign_ref node r child) = coords node"
  by (simp add: coords_def)

lemma update_at_coords:
  "node_at tree q \<noteq> None \<Longrightarrow> node_at tree p = Some n \<Longrightarrow>
   \<exists>n'. node_at (update_at q (bump_lines d) tree) p = Some n'
      \<and> coords n' = (if p = q then coords (bump_lines d n) else coords n)
      \<and> cls n' = cls n \<and> fields n' = fields n \<and> attribs n' = attribs n"
proof (induction q arbitrary: tree p n)
  case Nil
  show ?case
  proof (cases p)
    case Nil
    with Nil.prems show ?thesis by simp
  next
    case (Cons r p')
    with Nil.prems show ?thesis by (simp add: deref_bump_lines)
  qed
next
  case (Cons r q)
  from Cons.prems(1) obtain c where c: "deref tree r = Some c" and v: "node_at c q \<noteq> None"
    by (auto split: option.splits)
  show ?case
  proof (cases p)
    case Nil
    with Cons.prems c show ?thesis by simp
  next
    case (Cons r' p')
    show ?thesis
    proof (cases "r' = r")
      case True
      with Cons.prems(2) Cons c have "node_at c p' = Some n" by simp
      from Cons.IH [OF v this] True Cons c show ?thesis
        by (simp add: deref_assign_ref)
    next
      case False
      with Cons.prems(2) Cons c show ?thesis
        by (simp add: deref_assign_ref)
    qed
  qed
qed

lemma fold_update_lines:
  "\<forall>q\<in>set ps. node_at tree q \<noteq> None \<Longrightarrow> node_at tree p = Some n \<Longrightarrow>
   \<exists>n'. node_at (fold (\<lambda>q t. update_at q (bump_lines d) t) ps tree) p = Some n'
      \<and> lineno n' = map_option (\<lambda>x. x + d * int (count_list ps p)) (lineno n)
      \<and> end_lineno n' = map_option (\<lambda>x. x + d * int (count_list ps p)) (end_lineno n)
      \<and> col_offset n' = col_offset n \<and> end_col_offset n' = end_col_offset n
      \<and> cls n' = cls n \<and> fields n' = fields n \<and> attribs n' = attribs n"
proof (induction ps arbitrary: tree n)
  case Nil
  then show ?case by (simp add: option.map_ident)
next
  case (Cons q ps)
  let ?t = "update_at q (bump_lines d) tree"
  have vq: "node_at tree q \<noteq> None" using Cons.prems(1) by simp
  have valid: "\<forall>q'\<in>set ps. node_at ?t q' \<noteq> None"
  proof
    fix q' assume "q' \<in> set ps"
    with Cons.prems(1) obtain m where "node_at tree q' = Some m" by auto
    from update_at_coords [OF vq this] show "node_at ?t q' \<noteq> None" by auto
  qed
  from update_at_coords [OF vq Cons.prems(2)]
  obtain n1 where n1: "node_at ?t p = Some n1"
      and c1: "coords n1 = (if p = q then coords (bump_lines d n) else coords n)"
      and k1: "cls n1 = cls n" "fields n1 = fields n" "attribs n1 = attribs n"
    by blast
  from Cons.IH [OF valid n1]
  obtain n' where n': "node_at (fold (\<lambda>q t. update_at q (bump_lines d) t) ps ?t) p = Some n'"
      and l: "lineno n' = map_option (\<lambda>x. x + d * int (count_list ps p)) (lineno n1)"
      and e: "end_lineno n' = map_option (\<lambda>x. x + d * int (count_list ps p)) (end_lineno n1)"
      and c: "col_offset n' = col_offset n1" "end_col_offset n' = end_col_offset n1"
      and k: "cls n' = cls n1" "fields n' = fields n1" "attribs n' = attribs n1"
    by blast
  show ?case
  proof (cases "p = q")
    case True
    with c1 have "lineno n1 = map_option (\<lambda>x. x + d) (lineno n)"
      "end_lineno n1 = map_option (\<lambda>x. x + d) (end_lineno n)"
      "col_offset n1 = col_offset n" "end_col_offset n1 = end_col_offset n"
      by (simp_all add: coords_def)
    with n' l e c k k1 True show ?thesis
      by (simp add: option.map_comp comp_def algebra_simps)
  next
    case False
    with c1 have "lineno n1 = lineno n" "end_lineno n1 = end_lineno n"
      "col_offset n1 = col_offset n" "end_col_offset n1 = end_col_offset n"
      by (simp_all add: coords_def)
    with n' l e c k k1 False show ?thesis by simp
  qed
qed

lemma assign_same: "map_of kvs name = Some v \<Longrightarrow> assign name v kvs = kvs"
  by (induction kvs) (auto split: if_splits)

lemma with_vals_same: "with_vals node (vals node) = node"
  by (cases node) simp

lemma assign_ref_same: "deref node r = Some child \<Longrightarrow> assign_ref node r child = node"
proof (cases r)
  case (Direct name)
  assume "deref node r = Some child"
  with Direct have g: "getattr node name = Some (VNode child)"
    by (auto split: option.splits val.splits)
  from getattr_container [OF g] Direct show ?thesis
    by (simp add: setattr_def assign_same with_vals_same)
next
  case (Item name i)
  assume a: "deref node r = Some child"
  with Item obtain items where g: "getattr node name = Some (VList items)"
      and i: "i < length items" "items ! i = VNode child"
    by (auto split: option.splits val.splits if_splits)
  from i have "items[i := VNode child] = items" by (metis list_update_id)
  with getattr_container [OF g] Item g show ?thesis
    by (simp add: setattr_def assign_same with_vals_same)
qed

lemma bump_lines_zero: "bump_lines 0 node = node"
  by (cases node) (simp split: option.splits)

lemma update_at_zero: "update_at p (bump_lines 0) tree = tree"
  by (induction p arbitrary: tree) (auto simp: bump_lines_zero assign_ref_same split: option.splits)

lemma fold_update_zero: "fold (\<lambda>q t. update_at q (bump_lines 0) t) ps tree = tree"
  by (induction ps) (simp_all add: update_at_zero)

lemma increment_lineno_fold:
  "increment_lineno node n
   = fold (\<lambda>q t. update_at q (bump_lines n) t) (map fst (walk_located [([], node)])) node"
  by (simp add: increment_lineno_def fold_map comp_def case_prod_unfold)

lemma filter_nth_indices:
  "map ((!) xs) (filter (\<lambda>i. P (xs ! i)) [0..<length xs]) = filter P xs"
proof -
  have "filter P (map ((!) xs) [0..<length xs]) = map ((!) xs) (filter (P \<circ> (!) xs) [0..<length xs])"
    by (rule filter_map)
  then show ?thesis by (simp add: map_nth comp_def)
qed

lemma deref_refs_of_value:
  "getattr node name = Some v \<Longrightarrow>
   map (deref node) (refs_of_value name v) = map Some (yield_value v)"
proof (cases v)
  case (VList items)
  assume g: "getattr node name = Some v"
  have "map (deref node) (map (Item name) (filter (\<lambda>i. is_node (items ! i)) [0..<length items]))
        = map (\<lambda>i. Some (the_node (items ! i))) (filter (\<lambda>i. is_node (items ! i)) [0..<length items])"
    using g VList by (auto simp: is_node_def the_node_def split: val.splits)
  also have "\<dots> = map (Some \<circ> the_node) (map ((!) items) (filter (\<lambda>i. is_node (items ! i)) [0..<length items]))"
    by simp
  also have "\<dots> = map Some (yield_items items)"
    by (simp only: filter_nth_indices yield_items_filter map_map)
  finally show ?thesis using VList by simp
qed simp_all

lemma deref_yield_refs:
  "map (deref node) (yield_refs (iter_names node names))
   = map Some (yield_children (iter_names node names))"
  by (induction names) (auto split: option.splits simp: deref_refs_of_value)

lemma deref_iter_child_refs:
  "map (deref node) (iter_child_refs node) = map Some (iter_child_nodes node)"
  by (simp add: iter_child_refs_def iter_child_nodes_def iter_attribs_def iter_fields_def
        deref_yield_refs)

lemma length_iter_child_refs: "length (iter_child_refs node) = length (iter_child_nodes node)"
  using deref_iter_child_refs [of node] by (metis length_map)

lemma snd_located_children: "map snd (located_children path node) = iter_child_nodes node"
  by (simp add: located_children_def length_iter_child_refs)

lemma located_children_deref:
  "(q, c) \<in> set (located_children path node) \<Longrightarrow> \<exists>r. q = path @ [r] \<and> deref node r = Some c"
proof -
  assume "(q, c) \<in> set (located_children path node)"
  then obtain i where i: "i < length (iter_child_refs node)" "i < length (iter_child_nodes node)"
      and q: "q = path @ [iter_child_refs node ! i]" and c: "c = iter_child_nodes node ! i"
    by (auto simp: located_children_def in_set_zip)
  have "map (deref node) (iter_child_refs node) ! i = map Some (iter_child_nodes node) ! i"
    by (simp only: deref_iter_child_refs)
  with i have "deref node (iter_child_refs node ! i) = Some (iter_child_nodes node ! i)"
    by simp
  with q c show ?thesis by blast
qed

lemma node_at_snoc:
  "node_at root (path @ [r]) = (case node_at root path of None \<Rightarrow> None | Some n \<Rightarrow> deref n r)"
  by (induction path arbitrary: root) (auto split: option.splits)

lemma snd_walk_located: "map snd (walk_located todo) = walk_todo (map snd todo)"
  by (induction todo rule: walk_located.induct) (simp_all add: snd_located_children)

lemma walk_located_valid:
  "\<forall>(p, n)\<in>set todo. node_at root p = Some n \<Longrightarrow>
   \<forall>(p, n)\<in>set (walk_located todo). node_at root p = Some n"
proof (induction todo rule: walk_located.induct)
  case 1
  show ?case by simp
next
  case (2 path node todo)
  have "\<forall>(p, n)\<in>set (located_children path node). node_at root p = Some n"
  proof (clarify)
    fix q c assume "(q, c) \<in> set (located_children path node)"
    then obtain r where "q = path @ [r]" "deref node r = Some c"
      using located_children_deref by blast
    with "2.prems" show "node_at root q = Some c"
      by (simp add: node_at_snoc)
  qed
  with "2.prems" have "\<forall>(p, n)\<in>set (todo @ located_children path node). node_at root p = Some n"
    by auto
  from "2.IH" [OF this] "2.prems" show ?case by simp
qed

section \<open>Theorems: fix_missing_locations\<close>

lemma update_name_updated:
  "update_name f node name acc
   = (case updated f node name of None \<Rightarrow> acc | Some v \<Rightarrow> setattr acc name v)"
  by (simp add: update_name_def updated_def split: option.splits val.splits)

lemma updated_not_slot: "updated f node name = Some v \<Longrightarrow> name \<notin> set slot_names"
  by (auto simp: updated_def split: option.splits val.splits dest: getattr_container)

lemma getattr_update_name:
  "getattr (update_name f node name acc) k
   = (if k = name then (case updated f node k of None \<Rightarrow> getattr acc k | Some v \<Rightarrow> Some v)
      else getattr acc k)"
proof (cases "updated f node name")
  case None
  then show ?thesis by (simp add: update_name_updated)
next
  case (Some v)
  then show ?thesis
    using updated_not_slot [OF Some] by (simp add: update_name_updated getattr_setattr)
qed

lemma getattr_fold_update_name:
  "getattr (fold (update_name f node) names acc) k
   = (if k \<in> set names
      then (case updated f node k of None \<Rightarrow> getattr acc k | Some v \<Rightarrow> Some v)
      else getattr acc k)"
proof (induction names arbitrary: acc)
  case Nil
  show ?case by simp
next
  case (Cons name names)
  have "getattr (fold (update_name f node) (name # names) acc) k
        = getattr (fold (update_name f node) names (update_name f node name acc)) k"
    by simp
  also have "\<dots> = (if k \<in> set names
      then (case updated f node k of None \<Rightarrow> getattr (update_name f node name acc) k
            | Some v \<Rightarrow> Some v)
      else getattr (update_name f node name acc) k)"
    by (rule Cons.IH)
  also have "\<dots> = (if k \<in> set (name # names)
      then (case updated f node k of None \<Rightarrow> getattr acc k | Some v \<Rightarrow> Some v)
      else getattr acc k)"
    by (simp add: getattr_update_name split: option.splits)
  finally show ?case .
qed

lemma sels_setattr [simp]:
  "lineno (setattr node name v) = lineno node" "col_offset (setattr node name v) = col_offset node"
  "end_lineno (setattr node name v) = end_lineno node"
  "end_col_offset (setattr node name v) = end_col_offset node"
  "cls (setattr node name v) = cls node" "fields (setattr node name v) = fields node"
  "attribs (setattr node name v) = attribs node"
  by (simp_all add: setattr_def)

lemma sels_update_name [simp]:
  "lineno (update_name f node name acc) = lineno acc"
  "col_offset (update_name f node name acc) = col_offset acc"
  "end_lineno (update_name f node name acc) = end_lineno acc"
  "end_col_offset (update_name f node name acc) = end_col_offset acc"
  "cls (update_name f node name acc) = cls acc"
  "fields (update_name f node name acc) = fields acc"
  "attribs (update_name f node name acc) = attribs acc"
  by (simp_all add: update_name_updated split: option.splits)

lemma sels_fold_update_name:
  "lineno (fold (update_name f node) names acc) = lineno acc
   \<and> col_offset (fold (update_name f node) names acc) = col_offset acc
   \<and> end_lineno (fold (update_name f node) names acc) = end_lineno acc
   \<and> end_col_offset (fold (update_name f node) names acc) = end_col_offset acc
   \<and> cls (fold (update_name f node) names acc) = cls acc
   \<and> fields (fold (update_name f node) names acc) = fields acc
   \<and> attribs (fold (update_name f node) names acc) = attribs acc"
  by (induction names arbitrary: acc) simp_all

lemma sels_update_children [simp]:
  "lineno (update_children f node) = lineno node"
  "col_offset (update_children f node) = col_offset node"
  "end_lineno (update_children f node) = end_lineno node"
  "end_col_offset (update_children f node) = end_col_offset node"
  "cls (update_children f node) = cls node"
  "fields (update_children f node) = fields node"
  "attribs (update_children f node) = attribs node"
  by (simp_all add: update_children_def sels_fold_update_name)

lemma yield_items_update_items: "yield_items (update_items f items) = map f (yield_items items)"
  by (induction items rule: yield_items.induct) simp_all

lemma children_of_name_update_children:
  assumes "name \<in> set (attribs node @ fields node)"
  shows "children_of_name (update_children f node) name = map f (children_of_name node name)"
proof -
  have g: "getattr (update_children f node) name
      = (case updated f node name of None \<Rightarrow> getattr node name | Some v \<Rightarrow> Some v)"
    using assms unfolding update_children_def by (simp only: getattr_fold_update_name if_True)
  show ?thesis
  proof (cases "getattr node name")
    case None
    with g show ?thesis by (simp add: children_of_name_def updated_def)
  next
    case (Some v)
    with g show ?thesis
      by (cases v)
         (simp_all add: children_of_name_def updated_def yield_items_filter [symmetric]
            yield_items_update_items)
  qed
qed

lemma iter_child_nodes_update_children:
  "iter_child_nodes (update_children f node) = map f (iter_child_nodes node)"
proof -
  have "map (children_of_name (update_children f node)) (attribs node @ fields node)
        = map (\<lambda>name. map f (children_of_name node name)) (attribs node @ fields node)"
    by (rule map_cong [OF refl]) (rule children_of_name_update_children)
  then have "concat (map (children_of_name (update_children f node)) (attribs node @ fields node))
        = map f (concat (map (children_of_name node) (attribs node @ fields node)))"
    by (simp only: map_concat map_map comp_def)
  then show ?thesis
    by (simp only: iter_child_nodes_children_of_name sels_update_children)
qed

lemmas fix_node_unfold = fix_node.simps [unfolded Let_def]
declare fix_node.simps [simp del]

lemma coords_fix_node:
  "coords (fix_node node l c el ec)
   = (Some (inherit (lineno node) l), Some (inherit (col_offset node) c),
      Some (inherit (end_lineno node) el), Some (inherit (end_col_offset node) ec))"
  by (subst fix_node_unfold) (simp add: coords_def)

lemma iter_child_nodes_fix_node:
  "iter_child_nodes (fix_node node l c el ec)
   = map (\<lambda>child. fix_node child (inherit (lineno node) l) (inherit (col_offset node) c)
            (inherit (end_lineno node) el) (inherit (end_col_offset node) ec))
       (iter_child_nodes node)"
  by (subst fix_node_unfold) (simp add: iter_child_nodes_update_children)

lemma fix_node_is_fixed: "\<exists>n' l' c' el' ec'. fix_node n l c el ec = fix_node n' l' c' el' ec'"
  by (intro exI) (rule refl)

lemma walk_todo_fixed:
  "\<forall>x\<in>set xs. \<exists>n l c el ec. x = fix_node n l c el ec \<Longrightarrow>
   \<forall>m\<in>set (walk_todo xs). \<exists>n l c el ec. m = fix_node n l c el ec"
proof (induction xs rule: walk_todo.induct)
  case 1
  show ?case by simp
next
  case (2 node todo)
  from "2.prems" obtain n l c el ec where n: "node = fix_node n l c el ec" by auto
  have "\<forall>x\<in>set (iter_child_nodes node). \<exists>n l c el ec. x = fix_node n l c el ec"
    unfolding n iter_child_nodes_fix_node by (auto intro: fix_node_is_fixed)
  with "2.prems" have "\<forall>x\<in>set (todo @ iter_child_nodes node). \<exists>n l c el ec. x = fix_node n l c el ec"
    by auto
  from "2.IH" [OF this] "2.prems" show ?case by simp
qed

lemma update_items_same: "(\<And>c. c \<in> set (yield_items items) \<Longrightarrow> f c = c) \<Longrightarrow> update_items f items = items"
  by (induction items rule: yield_items.induct) auto

lemma update_name_same:
  assumes "\<And>c. c \<in> set (children_of_name node name) \<Longrightarrow> f c = c"
  shows "update_name f node name node = node"
proof (cases "getattr node name")
  case None
  then show ?thesis by (simp add: update_name_def)
next
  case (Some v)
  show ?thesis
  proof (cases v)
    case (VNode c)
    with Some assms have "f c = c" by (simp add: children_of_name_def)
    with Some VNode getattr_container [OF Some] show ?thesis
      by (simp add: update_name_def setattr_def assign_same with_vals_same)
  next
    case (VList items)
    with Some assms have "update_items f items = items"
      by (intro update_items_same) (simp add: children_of_name_def yield_items_filter)
    with Some VList getattr_container [OF Some] show ?thesis
      by (simp add: update_name_def setattr_def assign_same with_vals_same)
  qed (use Some in \<open>simp_all add: update_name_def\<close>)
qed

lemma fold_fixed_point: "(\<And>x. x \<in> set xs \<Longrightarrow> g x a = a) \<Longrightarrow> fold g xs a = a"
  by (induction xs) simp_all

lemma update_children_same:
  assumes "\<And>c. c \<in> set (iter_child_nodes node) \<Longrightarrow> f c = c"
  shows "update_children f node = node"
  unfolding update_children_def
proof (rule fold_fixed_point)
  fix name assume "name \<in> set (attribs node @ fields node)"
  then have "set (children_of_name node name) \<subseteq> set (iter_child_nodes node)"
    by (rule children_of_name_subset)
  with assms show "update_name f node name node = node"
    by (intro update_name_same) auto
qed

lemma with_coords_same:
  "with_coords node (lineno node) (col_offset node) (end_lineno node) (end_col_offset node) = node"
  by (cases node) simp

text \<open>
  Filling a filled node again, with any inherited values, changes nothing. The source
  calls \<open>_fix\<close> once for every child that \<open>iter_child_nodes\<close> yields, so a child under a
  name that is declared twice is filled twice; by this lemma the second call leaves it as
  the first one made it, which is what \<open>update_children\<close> stores.
\<close>

lemma fix_node_fixed:
  "fix_node (fix_node node l c el ec) l' c' el' ec' = fix_node node l c el ec"
proof (induction node l c el ec arbitrary: l' c' el' ec' rule: fix_node.induct)
  case (1 node l0 c0 el0 ec0)
  let ?l = "inherit (lineno node) l0" and ?c = "inherit (col_offset node) c0"
  let ?el = "inherit (end_lineno node) el0" and ?ec = "inherit (end_col_offset node) ec0"
  let ?t = "fix_node node l0 c0 el0 ec0"
  have co: "lineno ?t = Some ?l" "col_offset ?t = Some ?c" "end_lineno ?t = Some ?el"
      "end_col_offset ?t = Some ?ec"
    using coords_fix_node [of node l0 c0 el0 ec0] by (simp_all add: coords_def)
  have w: "with_coords ?t (Some ?l) (Some ?c) (Some ?el) (Some ?ec) = ?t"
    using with_coords_same [of ?t] by (simp only: co)
  have ch: "\<And>x. x \<in> set (iter_child_nodes ?t) \<Longrightarrow> fix_node x ?l ?c ?el ?ec = x"
  proof -
    fix x assume "x \<in> set (iter_child_nodes ?t)"
    then obtain y where y: "y \<in> set (iter_child_nodes node)" and x: "x = fix_node y ?l ?c ?el ?ec"
      unfolding iter_child_nodes_fix_node by auto
    from y have "y \<in> set (iter_child_nodes (with_coords node (Some ?l) (Some ?c) (Some ?el) (Some ?ec)))"
      by simp
    from "1.IH" [OF refl refl refl refl this] x show "fix_node x ?l ?c ?el ?ec = x" by simp
  qed
  have "fix_node ?t l' c' el' ec'
        = update_children (\<lambda>child. fix_node child ?l ?c ?el ?ec)
            (with_coords ?t (Some ?l) (Some ?c) (Some ?el) (Some ?ec))"
    by (subst fix_node_unfold) (simp add: co inherit_def)
  also have "\<dots> = ?t"
    unfolding w using ch by (rule update_children_same)
  finally show ?case .
qed

text \<open>
  C6. \<open>fix_missing_locations\<close> starts the fill at the root with line 1, column 0, end
  line 1, end column 0. The fill of a node with inherited values sets each coordinate to
  the node's own value when it is set and to the inherited value otherwise, and fills the
  children (in \<open>iter_child_nodes\<close> order) with the node's resulting four values as their
  inherited values. After the call every node that \<open>walk\<close> reaches from the returned
  root has all four coordinates set, and the returned root is the input root: same class
  and same declared names.
\<close>

theorem fix_missing_locations_fill:
  "fix_missing_locations node = fix_node node 1 0 1 0
   \<and> lineno (fix_node n l c el ec) = Some (case lineno n of None \<Rightarrow> l | Some x \<Rightarrow> x)
   \<and> col_offset (fix_node n l c el ec) = Some (case col_offset n of None \<Rightarrow> c | Some x \<Rightarrow> x)
   \<and> end_lineno (fix_node n l c el ec) = Some (case end_lineno n of None \<Rightarrow> el | Some x \<Rightarrow> x)
   \<and> end_col_offset (fix_node n l c el ec)
       = Some (case end_col_offset n of None \<Rightarrow> ec | Some x \<Rightarrow> x)
   \<and> iter_child_nodes (fix_node n l c el ec)
       = map (\<lambda>child. fix_node child
                (case lineno n of None \<Rightarrow> l | Some x \<Rightarrow> x)
                (case col_offset n of None \<Rightarrow> c | Some x \<Rightarrow> x)
                (case end_lineno n of None \<Rightarrow> el | Some x \<Rightarrow> x)
                (case end_col_offset n of None \<Rightarrow> ec | Some x \<Rightarrow> x))
           (iter_child_nodes n)
   \<and> (\<forall>m\<in>set (walk (fix_missing_locations node)).
         lineno m \<noteq> None \<and> col_offset m \<noteq> None \<and> end_lineno m \<noteq> None \<and> end_col_offset m \<noteq> None)
   \<and> cls (fix_missing_locations node) = cls node
   \<and> fields (fix_missing_locations node) = fields node
   \<and> attribs (fix_missing_locations node) = attribs node"
proof -
  have w: "\<forall>m\<in>set (walk (fix_missing_locations node)). \<exists>n l c el ec. m = fix_node n l c el ec"
    unfolding walk_def by (rule walk_todo_fixed) (simp add: fix_missing_locations_def fix_node_is_fixed)
  have s: "\<forall>m\<in>set (walk (fix_missing_locations node)).
         lineno m \<noteq> None \<and> col_offset m \<noteq> None \<and> end_lineno m \<noteq> None \<and> end_col_offset m \<noteq> None"
  proof
    fix m assume "m \<in> set (walk (fix_missing_locations node))"
    with w obtain n l c el ec where "m = fix_node n l c el ec" by blast
    then show "lineno m \<noteq> None \<and> col_offset m \<noteq> None \<and> end_lineno m \<noteq> None \<and> end_col_offset m \<noteq> None"
      using coords_fix_node [of n l c el ec] by (simp add: coords_def)
  qed
  have k: "cls (fix_node node 1 0 1 0) = cls node \<and> fields (fix_node node 1 0 1 0) = fields node
      \<and> attribs (fix_node node 1 0 1 0) = attribs node"
    by (subst (1 2 3) fix_node_unfold) simp
  show ?thesis
    using s k coords_fix_node [of n l c el ec] iter_child_nodes_fix_node [of n l c el ec]
    by (simp add: fix_missing_locations_def coords_def inherit_def)
qed

theorem fix_missing_locations_fill_witness:
  "fix_missing_locations located_example
     = Node ''Module'' [''body''] [] (Some 1) (Some 0) (Some 2) (Some 5)
         [(''body'', VList [VNode (Node ''Expr'' [] [] (Some 2) (Some 4) (Some 2) (Some 5) [])])]
   \<and> walk (fix_missing_locations located_example)
     = [fix_missing_locations located_example,
        Node ''Expr'' [] [] (Some 2) (Some 4) (Some 2) (Some 5) []]
   \<and> end_lineno (Node ''Expr'' [] [] (Some 2) (Some 4) (Some 2) (Some 5) []) \<noteq> None"
proof -
  have e: "fix_missing_locations located_example
      = Node ''Module'' [''body''] [] (Some 1) (Some 0) (Some 2) (Some 5)
          [(''body'', VList [VNode (Node ''Expr'' [] [] (Some 2) (Some 4) (Some 2) (Some 5) [])])]"
    unfolding fix_missing_locations_def located_example_def
    apply (subst fix_node_unfold)
    apply (simp add: update_children_def update_name_def getattr_def setattr_def inherit_def)
    apply (subst fix_node_unfold)
    apply (simp add: update_children_def inherit_def)
    done
  have w: "walk (fix_missing_locations located_example)
     = [fix_missing_locations located_example,
        Node ''Expr'' [] [] (Some 2) (Some 4) (Some 2) (Some 5) []]"
    unfolding e
    by (simp add: walk_def iter_child_nodes_def iter_attribs_def iter_fields_def getattr_def)
  show ?thesis
    using fix_missing_locations_fill [of located_example] e w by simp
qed

lemma count_list_distinct: "distinct xs \<Longrightarrow> x \<in> set xs \<Longrightarrow> count_list xs x = 1"
  by (induction xs) auto

text \<open>
  C9. \<open>increment_lineno(node, d)\<close> returns the tree in which, for every node that \<open>walk\<close>
  yields (at its position \<open>p\<close> in the tree), \<open>d\<close> has been added to the start line when
  it is set and, independently, to the end line when it is set, once per yield of that
  node; both column offsets, unset lines, the class and the declared names are unchanged.
  In a tree where \<open>walk\<close> yields every position once, each set line is the original plus
  \<open>d\<close>. With \<open>d = 0\<close> the whole tree is returned unchanged.
\<close>

theorem increment_lineno_walk:
  "map snd (walk_located [([], node)]) = walk node
   \<and> (\<forall>p n. (p, n) \<in> set (walk_located [([], node)]) \<longrightarrow>
        (\<exists>n'. node_at (increment_lineno node d) p = Some n'
           \<and> lineno n' = map_option
                (\<lambda>x. x + d * int (count_list (map fst (walk_located [([], node)])) p)) (lineno n)
           \<and> end_lineno n' = map_option
                (\<lambda>x. x + d * int (count_list (map fst (walk_located [([], node)])) p)) (end_lineno n)
           \<and> col_offset n' = col_offset n \<and> end_col_offset n' = end_col_offset n
           \<and> cls n' = cls n \<and> fields n' = fields n \<and> attribs n' = attribs n
           \<and> (distinct (map fst (walk_located [([], node)])) \<longrightarrow>
                lineno n' = map_option (\<lambda>x. x + d) (lineno n)
              \<and> end_lineno n' = map_option (\<lambda>x. x + d) (end_lineno n))))
   \<and> increment_lineno node 0 = node"
proof -
  let ?w = "walk_located [([], node)]"
  have a: "map snd ?w = walk node"
    by (simp add: snd_walk_located snd_located_children walk_def)
  have valid: "\<forall>(p, n)\<in>set ?w. node_at node p = Some n"
    by (rule walk_located_valid) simp
  have b: "\<forall>p n. (p, n) \<in> set ?w \<longrightarrow>
        (\<exists>n'. node_at (increment_lineno node d) p = Some n'
           \<and> lineno n' = map_option (\<lambda>x. x + d * int (count_list (map fst ?w) p)) (lineno n)
           \<and> end_lineno n' = map_option (\<lambda>x. x + d * int (count_list (map fst ?w) p)) (end_lineno n)
           \<and> col_offset n' = col_offset n \<and> end_col_offset n' = end_col_offset n
           \<and> cls n' = cls n \<and> fields n' = fields n \<and> attribs n' = attribs n
           \<and> (distinct (map fst ?w) \<longrightarrow>
                lineno n' = map_option (\<lambda>x. x + d) (lineno n)
              \<and> end_lineno n' = map_option (\<lambda>x. x + d) (end_lineno n)))"
  proof (intro allI impI)
    fix p n assume pn: "(p, n) \<in> set ?w"
    with valid have at: "node_at node p = Some n" by auto
    have all: "\<forall>q\<in>set (map fst ?w). node_at node q \<noteq> None"
      using valid by auto
    from fold_update_lines [OF all at, of d]
    obtain n' where n': "node_at (increment_lineno node d) p = Some n'"
        "lineno n' = map_option (\<lambda>x. x + d * int (count_list (map fst ?w) p)) (lineno n)"
        "end_lineno n' = map_option (\<lambda>x. x + d * int (count_list (map fst ?w) p)) (end_lineno n)"
        "col_offset n' = col_offset n" "end_col_offset n' = end_col_offset n"
        "cls n' = cls n" "fields n' = fields n" "attribs n' = attribs n"
      unfolding increment_lineno_fold by blast
    have "distinct (map fst ?w) \<longrightarrow> count_list (map fst ?w) p = 1"
    proof
      assume "distinct (map fst ?w)"
      moreover have "p \<in> set (map fst ?w)" using pn by force
      ultimately show "count_list (map fst ?w) p = 1"
        by (rule count_list_distinct)
    qed
    with n' show "\<exists>n'. node_at (increment_lineno node d) p = Some n'
           \<and> lineno n' = map_option (\<lambda>x. x + d * int (count_list (map fst ?w) p)) (lineno n)
           \<and> end_lineno n' = map_option (\<lambda>x. x + d * int (count_list (map fst ?w) p)) (end_lineno n)
           \<and> col_offset n' = col_offset n \<and> end_col_offset n' = end_col_offset n
           \<and> cls n' = cls n \<and> fields n' = fields n \<and> attribs n' = attribs n
           \<and> (distinct (map fst ?w) \<longrightarrow>
                lineno n' = map_option (\<lambda>x. x + d) (lineno n)
              \<and> end_lineno n' = map_option (\<lambda>x. x + d) (end_lineno n))"
      by auto
  qed
  have c: "increment_lineno node 0 = node"
    unfolding increment_lineno_fold by (rule fold_update_zero)
  from a b c show ?thesis by blast
qed

theorem increment_lineno_walk_witness:
  "walk_located [([], located_example)]
     = [([], located_example),
        ([Item ''body'' 0], Node ''Expr'' [] [] (Some 2) (Some 4) None None [])]
   \<and> (\<exists>n'. node_at (increment_lineno located_example 3) [Item ''body'' 0] = Some n'
         \<and> lineno n' = Some 5 \<and> end_lineno n' = None
         \<and> col_offset n' = Some 4 \<and> end_col_offset n' = None)
   \<and> increment_lineno located_example 0 = located_example"
proof -
  have w: "walk_located [([], located_example)]
     = [([], located_example),
        ([Item ''body'' 0], Node ''Expr'' [] [] (Some 2) (Some 4) None None [])]"
    by (simp add: located_example_def located_children_def iter_child_refs_def
          iter_child_nodes_def iter_attribs_def iter_fields_def getattr_def is_node_def)
  have d: "distinct (map fst (walk_located [([], located_example)]))"
    unfolding w by simp
  have m: "([Item ''body'' 0], Node ''Expr'' [] [] (Some 2) (Some 4) None None [])
      \<in> set (walk_located [([], located_example)])"
    unfolding w by simp
  from increment_lineno_walk [of located_example 3] m d
  obtain n' where "node_at (increment_lineno located_example 3) [Item ''body'' 0] = Some n'"
      "lineno n' = map_option (\<lambda>x. x + 3) (lineno (Node ''Expr'' [] [] (Some 2) (Some 4) None None []))"
      "end_lineno n' = map_option (\<lambda>x. x + 3) (end_lineno (Node ''Expr'' [] [] (Some 2) (Some 4) None None []))"
      "col_offset n' = col_offset (Node ''Expr'' [] [] (Some 2) (Some 4) None None [])"
      "end_col_offset n' = end_col_offset (Node ''Expr'' [] [] (Some 2) (Some 4) None None [])"
    by blast
  then have "\<exists>n'. node_at (increment_lineno located_example 3) [Item ''body'' 0] = Some n'
         \<and> lineno n' = Some 5 \<and> end_lineno n' = None
         \<and> col_offset n' = Some 4 \<and> end_col_offset n' = None"
    by simp
  moreover have "increment_lineno located_example 0 = located_example"
    using increment_lineno_walk [of located_example 0] by blast
  ultimately show ?thesis using w by blast
qed


end
